theory Spec2Isabelle
  imports Main
begin

section \<open>Python values, exceptions and strings\<close>

text \<open>
  The storybook generator of \<^verbatim>\<open>gemini_storybook.py\<close> works on the values that
  \<^verbatim>\<open>json.loads\<close> returns and on dictionaries it builds itself. A value is a tree:
  a dictionary is the list of its items in insertion order (keys distinct), a list is
  the list of its elements. A \<^typ>\<open>char\<close> stands for the code point of the same number,
  so a \<^typ>\<open>string\<close> is a Python \<^verbatim>\<open>str\<close> over U+0000 .. U+00FF. A float is kept
  as the numeral it was read from; \<open>PObject\<close> is any other object (an image handle),
  which has no items and cannot be iterated. What \<^verbatim>\<open>print\<close> writes is left out.
\<close>

datatype pyval =
    PNone
  | PBool bool
  | PInt int
  | PFloat string
  | PStr string
  | PList "pyval list"
  | PDict "(string \<times> pyval) list"
  | PObject nat

text \<open>The exceptions (all subclasses of \<^verbatim>\<open>Exception\<close>) that the modelled code can meet.\<close>

datatype exn =
    KeyError string
  | TypeError
  | IndexError
  | ValueError
  | JSONDecodeError
  | OtherError string

subsection \<open>Dictionaries, subscripts and iteration\<close>

fun dict_set :: "(string \<times> pyval) list \<Rightarrow> string \<Rightarrow> pyval \<Rightarrow> (string \<times> pyval) list" where
  "dict_set [] k v = [(k, v)]"
| "dict_set ((k', v') # kvs) k v =
     (if k' = k then (k, v) # kvs else (k', v') # dict_set kvs k v)"

text \<open>\<^verbatim>\<open>obj[key]\<close> with a \<^verbatim>\<open>str\<close> key.\<close>

fun py_getitem :: "pyval \<Rightarrow> string \<Rightarrow> exn + pyval" where
  "py_getitem (PDict kvs) k =
     (case map_of kvs k of None \<Rightarrow> Inl (KeyError k) | Some v \<Rightarrow> Inr v)"
| "py_getitem _ k = Inl TypeError"

text \<open>\<^verbatim>\<open>obj[key] = v\<close> with a \<^verbatim>\<open>str\<close> key.\<close>

fun py_setitem :: "pyval \<Rightarrow> string \<Rightarrow> pyval \<Rightarrow> exn + pyval" where
  "py_setitem (PDict kvs) k v = Inr (PDict (dict_set kvs k v))"
| "py_setitem _ k v = Inl TypeError"

text \<open>The elements a \<^verbatim>\<open>for\<close> loop draws from a value.\<close>

fun py_iter :: "pyval \<Rightarrow> exn + pyval list" where
  "py_iter (PList xs) = Inr xs"
| "py_iter (PDict kvs) = Inr (map (\<lambda>kv. PStr (fst kv)) kvs)"
| "py_iter (PStr s) = Inr (map (\<lambda>c. PStr [c]) s)"
| "py_iter _ = Inl TypeError"

subsection \<open>Integers as decimal text\<close>

definition digit_char :: "nat \<Rightarrow> char" where
  "digit_char d = char_of (48 + d)"

function str_nat :: "nat \<Rightarrow> string" where
  "str_nat n = (if n < 10 then [digit_char n] else str_nat (n div 10) @ [digit_char (n mod 10)])"
  by pat_completeness auto
termination
  by (relation "measure id") auto

declare str_nat.simps [simp del]

text \<open>\<^verbatim>\<open>str(i)\<close> of an \<^verbatim>\<open>int\<close>, as an f-string formats it.\<close>

definition str_int :: "int \<Rightarrow> string" where
  "str_int i = (if i < 0 then CHR ''-'' # str_nat (nat (- i)) else str_nat (nat i))"

text \<open>Reading a decimal numeral back, to say what a numeral denotes.\<close>

definition digit_val :: "char \<Rightarrow> nat" where
  "digit_val c = of_char c - 48"

definition is_digit :: "char \<Rightarrow> bool" where
  "is_digit c = (48 \<le> (of_char c :: nat) \<and> (of_char c :: nat) \<le> 57)"

definition decimal_val :: "string \<Rightarrow> nat" where
  "decimal_val s = foldl (\<lambda>a c. 10 * a + digit_val c) 0 s"

subsection \<open>\<^verbatim>\<open>str.lower\<close> and \<^verbatim>\<open>str.strip\<close>\<close>

text \<open>
  On U+0000 .. U+00FF, \<^verbatim>\<open>str.lower\<close> maps A .. Z and the accented capitals
  U+00C0 .. U+00DE (without the multiplication sign U+00D7) to the letter 32 places on.
\<close>

definition lower_char :: "char \<Rightarrow> char" where
  "lower_char c =
     (let n = (of_char c :: nat) in
      if (65 \<le> n \<and> n \<le> 90) \<or> (192 \<le> n \<and> n \<le> 222 \<and> n \<noteq> 215)
      then char_of (n + 32) else c)"

definition py_lower :: "string \<Rightarrow> string" where
  "py_lower s = map lower_char s"

text \<open>
  The characters \<^verbatim>\<open>str.isspace\<close> accepts: tab, line feed, vertical tab, form feed,
  carriage return, the separators U+001C .. U+001F, the space, U+0085 and U+00A0.
\<close>

definition is_space :: "char \<Rightarrow> bool" where
  "is_space c =
     (let n = (of_char c :: nat) in
      (9 \<le> n \<and> n \<le> 13) \<or> (28 \<le> n \<and> n \<le> 32) \<or> n = 133 \<or> n = 160)"

definition py_strip :: "string \<Rightarrow> string" where
  "py_strip s = rev (dropWhile is_space (rev (dropWhile is_space s)))"

subsection \<open>Substrings and \<^verbatim>\<open>str.split\<close>\<close>

text \<open>\<^verbatim>\<open>text.startswith(pre)\<close>\<close>

fun py_startswith :: "string \<Rightarrow> string \<Rightarrow> bool" where
  "py_startswith text [] = True"
| "py_startswith [] (p # ps) = False"
| "py_startswith (c # cs) (p # ps) = (c = p \<and> py_startswith cs ps)"

text \<open>\<^verbatim>\<open>sub in text\<close>\<close>

fun py_in :: "string \<Rightarrow> string \<Rightarrow> bool" where
  "py_in sub [] = (sub = [])"
| "py_in sub (c # cs) = (py_startswith (c # cs) sub \<or> py_in sub cs)"

text \<open>
  \<^verbatim>\<open>text.split(sep)\<close> cuts at the leftmost occurrence of \<open>sep\<close>, then goes on behind
  it; an empty separator raises \<^verbatim>\<open>ValueError\<close>.
\<close>

fun split_pieces :: "string \<Rightarrow> string \<Rightarrow> string list" where
  "split_pieces sep [] = [[]]"
| "split_pieces sep (c # cs) =
     (if sep \<noteq> [] \<and> py_startswith (c # cs) sep
      then [] # split_pieces sep (drop (length sep) (c # cs))
      else (case split_pieces sep cs of
              [] \<Rightarrow> [[c]]
            | p # ps \<Rightarrow> (c # p) # ps))"

definition py_split :: "string \<Rightarrow> string \<Rightarrow> exn + string list" where
  "py_split text sep = (if sep = [] then Inl ValueError else Inr (split_pieces sep text))"

text \<open>\<^verbatim>\<open>xs[i]\<close> with a non-negative index.\<close>

definition py_index :: "'a list \<Rightarrow> nat \<Rightarrow> exn + 'a" where
  "py_index xs i = (if i < length xs then Inr (xs ! i) else Inl IndexError)"

text \<open>Sequencing of steps that may raise: the first exception ends the block.\<close>

definition and_then :: "exn + 'a \<Rightarrow> ('a \<Rightarrow> exn + 'b) \<Rightarrow> exn + 'b" where
  "and_then r f = (case r of Inl e \<Rightarrow> Inl e | Inr x \<Rightarrow> f x)"

section \<open>The fallback story\<close>

text \<open>
  The dictionary \<^verbatim>\<open>_generate_story_text\<close> returns from its \<^verbatim>\<open>except\<close> branch:
  \<^verbatim>\<open>{"title": "A Magical Story",
    "pages": [{"page_num": i+1, "text": f"Page {i+1} of your story..."}
              for i in range(pages)]}\<close>
\<close>

definition fallback_page :: "int \<Rightarrow> pyval" where
  "fallback_page i =
     PDict [(''page_num'', PInt (i + 1)),
            (''text'', PStr (''Page '' @ str_int (i + 1) @ '' of your story...''))]"

definition py_range :: "int \<Rightarrow> int list" where
  "py_range n = [0..n - 1]"

definition fallback_story :: "int \<Rightarrow> pyval" where
  "fallback_story pages =
     PDict [(''title'', PStr ''A Magical Story''),
            (''pages'', PList (map fallback_page (py_range pages)))]"

section \<open>Style resolution\<close>

definition style_instructions :: "(string \<times> string) list" where
  "style_instructions =
    [(''watercolor'', ''soft watercolor painting, gentle brush strokes, pastel colors''),
     (''pixel art'', ''8-bit pixel art style, retro gaming aesthetic, vibrant colors''),
     (''comics'', ''comic book illustration, bold lines, dynamic action poses''),
     (''claymation'', ''claymation style, clay figures, tactile textures''),
     (''crochet'', ''crochet/yarn art style, soft textile textures''),
     (''coloring book'', ''black and white line art, coloring book style'')]"

text \<open>\<^verbatim>\<open>style_instructions.get(style.lower(), "high-quality children's book illustration")\<close>\<close>

definition style_desc :: "string \<Rightarrow> string" where
  "style_desc style =
     (case map_of style_instructions (py_lower style) of
        Some d \<Rightarrow> d
      | None \<Rightarrow> ''high-quality children's book illustration'')"

section \<open>\<^verbatim>\<open>json.loads\<close>\<close>

text \<open>
  The decoder of the standard library, as \<^verbatim>\<open>json.loads(text)\<close> runs it: white space is
  blank, tab, line feed and carriage return; a string ends at the first unescaped
  quote and holds no raw control character; a repeated key keeps its first place and
  its last value. Each function takes the text still to read and gives back the value
  and the text behind it. An escape \<^verbatim>\<open>\uXXXX\<close> above U+00FF names a character that
  these strings do not have: only there the model departs from Python, and answers
  with an \<open>OtherError\<close> of its own.
\<close>

definition json_ws :: "char \<Rightarrow> bool" where
  "json_ws c = (c = CHR '' '' \<or> c = CHR 0x09 \<or> c = CHR 0x0A \<or> c = CHR 0x0D)"

definition skip_ws :: "string \<Rightarrow> string" where
  "skip_ws s = dropWhile json_ws s"

definition hex_val :: "char \<Rightarrow> nat option" where
  "hex_val c =
     (let n = (of_char c :: nat) in
      if 48 \<le> n \<and> n \<le> 57 then Some (n - 48)
      else if 97 \<le> n \<and> n \<le> 102 then Some (n - 87)
      else if 65 \<le> n \<and> n \<le> 70 then Some (n - 55)
      else None)"

definition hex4 :: "char \<Rightarrow> char \<Rightarrow> char \<Rightarrow> char \<Rightarrow> nat option" where
  "hex4 a b c d =
     (case (hex_val a, hex_val b, hex_val c, hex_val d) of
        (Some x, Some y, Some z, Some u) \<Rightarrow> Some (((x * 16 + y) * 16 + z) * 16 + u)
      | _ \<Rightarrow> None)"

definition unescape :: "char \<Rightarrow> char option" where
  "unescape e =
     (if e = CHR 0x22 then Some (CHR 0x22)
      else if e = CHR 0x5C then Some (CHR 0x5C)
      else if e = CHR ''/'' then Some (CHR ''/'')
      else if e = CHR ''b'' then Some (CHR 0x08)
      else if e = CHR ''f'' then Some (CHR 0x0C)
      else if e = CHR ''n'' then Some (CHR 0x0A)
      else if e = CHR ''r'' then Some (CHR 0x0D)
      else if e = CHR ''t'' then Some (CHR 0x09)
      else None)"

definition with_char :: "char \<Rightarrow> exn + (string \<times> string) \<Rightarrow> exn + (string \<times> string)" where
  "with_char c r = (case r of Inl e \<Rightarrow> Inl e | Inr (s, t) \<Rightarrow> Inr (c # s, t))"

fun scan_string :: "string \<Rightarrow> exn + (string \<times> string)" where
  "scan_string [] = Inl JSONDecodeError"
| "scan_string (c # cs) =
     (if c = CHR 0x22 then Inr ([], cs)
      else if c = CHR 0x5C then
        (case cs of
           [] \<Rightarrow> Inl JSONDecodeError
         | e # cs' \<Rightarrow>
             if e = CHR ''u'' then
               (case cs' of
                  h1 # h2 # h3 # h4 # cs'' \<Rightarrow>
                    (case hex4 h1 h2 h3 h4 of
                       None \<Rightarrow> Inl JSONDecodeError
                     | Some n \<Rightarrow>
                         if n < 256 then with_char (char_of n) (scan_string cs'')
                         else Inl (OtherError ''code point above U+00FF''))
                | _ \<Rightarrow> Inl JSONDecodeError)
             else
               (case unescape e of
                  None \<Rightarrow> Inl JSONDecodeError
                | Some ch \<Rightarrow> with_char ch (scan_string cs')))
      else if (of_char c :: nat) < 32 then Inl JSONDecodeError
      else with_char c (scan_string cs))"


lemma with_char_Inr:
  "with_char c r = Inr (k, t) \<longleftrightarrow> (\<exists>k'. r = Inr (k', t) \<and> k = c # k')"
  by (auto simp: with_char_def split: sum.splits)

lemma scan_string_shorter: "scan_string s = Inr (k, r) \<Longrightarrow> length r < length s"
proof (induction s arbitrary: k r rule: scan_string.induct)
  case 1
  then show ?case by simp
next
  case (2 c cs)
  then show ?case
    by (fastforce simp: with_char_Inr split: if_splits list.splits option.splits)
qed

lemma skip_ws_length: "length (skip_ws s) \<le> length s"
  by (simp add: skip_ws_def length_dropWhile_le)

lemma skip_ws_Cons_length: "skip_ws r = d # t \<Longrightarrow> length t < length r"
  using skip_ws_length [of r] by simp

text \<open>Numbers: \<^verbatim>\<open>(-?(?:0|[1-9]\d*))(\.\d+)?([eE][-+]?\d+)?\<close>\<close>

definition match_int :: "string \<Rightarrow> (string \<times> string) option" where
  "match_int s =
     (case s of
        [] \<Rightarrow> None
      | d # r \<Rightarrow>
          if d = CHR ''0'' then Some ([d], r)
          else if is_digit d then Some (d # takeWhile is_digit r, dropWhile is_digit r)
          else None)"

definition match_frac :: "string \<Rightarrow> string \<times> string" where
  "match_frac s =
     (case s of
        p # d # r \<Rightarrow>
          if p = CHR ''.'' \<and> is_digit d
          then (p # d # takeWhile is_digit r, dropWhile is_digit r)
          else ([], s)
      | _ \<Rightarrow> ([], s))"

definition match_exp :: "string \<Rightarrow> string \<times> string" where
  "match_exp s =
     (case s of
        e # r \<Rightarrow>
          if e = CHR ''e'' \<or> e = CHR ''E'' then
            (case r of
               g # r' \<Rightarrow>
                 if is_digit g then (e # g # takeWhile is_digit r', dropWhile is_digit r')
                 else if g = CHR ''+'' \<or> g = CHR ''-'' then
                   (case r' of
                      d # r'' \<Rightarrow>
                        if is_digit d
                        then (e # g # d # takeWhile is_digit r'', dropWhile is_digit r'')
                        else ([], s)
                    | [] \<Rightarrow> ([], s))
                 else ([], s)
             | [] \<Rightarrow> ([], s))
          else ([], s)
      | [] \<Rightarrow> ([], s))"

text \<open>
  The interpreter converts between an \<^verbatim>\<open>int\<close> and its decimal numeral only up to 4300
  digits (the default of CPython from 3.11 on); beyond that \<^verbatim>\<open>int(numeral)\<close> and the
  printing of an \<^verbatim>\<open>int\<close> raise \<^verbatim>\<open>ValueError\<close>. The limit is modelled where
  \<^verbatim>\<open>json\<close> converts integers. A page count is formatted without it: a story of
  \<open>10 ^ 4300\<close> pages is beyond any memory.
\<close>

definition max_str_digits :: nat where
  "max_str_digits = 4300"

text \<open>
  A numeral that matches is an \<^verbatim>\<open>int\<close> when it has neither fraction nor exponent; the
  result is \<open>None\<close> where nothing matches.
\<close>

definition match_number :: "string \<Rightarrow> (exn + pyval \<times> string) option" where
  "match_number s =
     (let (sign, s1) = (case s of c # r \<Rightarrow> if c = CHR ''-'' then ([c], r) else ([], s) | [] \<Rightarrow> ([], s))
      in case match_int s1 of
           None \<Rightarrow> None
         | Some (digits, s2) \<Rightarrow>
             (let (frac, s3) = match_frac s2; (ex, s4) = match_exp s3
              in if frac = [] \<and> ex = []
                 then (if max_str_digits < length digits then Some (Inl ValueError)
                       else Some (Inr (PInt (if sign = [] then int (decimal_val digits)
                                             else - int (decimal_val digits)), s4)))
                 else Some (Inr (PFloat (sign @ digits @ frac @ ex), s4))))"

text \<open>\<^verbatim>\<open>dict(pairs)\<close>: a later pair with the same key replaces the value of the earlier.\<close>

definition dict_of_pairs :: "(string \<times> pyval) list \<Rightarrow> (string \<times> pyval) list" where
  "dict_of_pairs kvs = foldl (\<lambda>d kv. dict_set d (fst kv) (snd kv)) [] kvs"

function parse_value :: "string \<Rightarrow> exn + (pyval \<times> string)"
  and parse_elems :: "string \<Rightarrow> exn + (pyval list \<times> string)"
  and parse_members :: "string \<Rightarrow> exn + ((string \<times> pyval) list \<times> string)"
where
  "parse_value [] = Inl JSONDecodeError"
| "parse_value (c # r) =
     (if c = CHR 0x22 then
        (case scan_string r of Inl e \<Rightarrow> Inl e | Inr (str, t) \<Rightarrow> Inr (PStr str, t))
      else if c = CHR ''{'' then
        (case skip_ws r of
           [] \<Rightarrow> Inl JSONDecodeError
         | d # t \<Rightarrow>
             if d = CHR ''}'' then Inr (PDict [], t)
             else if d = CHR 0x22 then
               (case parse_members t of
                  Inl e \<Rightarrow> Inl e
                | Inr (kvs, u) \<Rightarrow> Inr (PDict (dict_of_pairs kvs), u))
             else Inl JSONDecodeError)
      else if c = CHR ''['' then
        (case skip_ws r of
           [] \<Rightarrow> Inl JSONDecodeError
         | d # t \<Rightarrow>
             if d = CHR '']'' then Inr (PList [], t)
             else
               (case parse_elems (d # t) of
                  Inl e \<Rightarrow> Inl e
                | Inr (vs, u) \<Rightarrow> Inr (PList vs, u)))
      else if py_startswith (c # r) ''null'' then Inr (PNone, drop 4 (c # r))
      else if py_startswith (c # r) ''true'' then Inr (PBool True, drop 4 (c # r))
      else if py_startswith (c # r) ''false'' then Inr (PBool False, drop 5 (c # r))
      else
        (case match_number (c # r) of
           Some res \<Rightarrow> res
         | None \<Rightarrow>
             if py_startswith (c # r) ''NaN'' then Inr (PFloat ''NaN'', drop 3 (c # r))
             else if py_startswith (c # r) ''Infinity'' then Inr (PFloat ''Infinity'', drop 8 (c # r))
             else if py_startswith (c # r) ''-Infinity'' then Inr (PFloat ''-Infinity'', drop 9 (c # r))
             else Inl JSONDecodeError))"
| "parse_elems s =
     (case parse_value s of
        Inl e \<Rightarrow> Inl e
      | Inr (v, r) \<Rightarrow>
          if length r \<le> length s then
            (case skip_ws r of
               [] \<Rightarrow> Inl JSONDecodeError
             | d # t \<Rightarrow>
                 if d = CHR '']'' then Inr ([v], t)
                 else if d = CHR '','' then
                   (case parse_elems (skip_ws t) of
                      Inl e \<Rightarrow> Inl e
                    | Inr (vs, u) \<Rightarrow> Inr (v # vs, u))
                 else Inl JSONDecodeError)
          else Inl JSONDecodeError)"
| "parse_members s =
     (case scan_string s of
        Inl e \<Rightarrow> Inl e
      | Inr (key, r) \<Rightarrow>
          (case skip_ws r of
             [] \<Rightarrow> Inl JSONDecodeError
           | d # t \<Rightarrow>
               if d = CHR '':'' then
                 (case parse_value (skip_ws t) of
                    Inl e \<Rightarrow> Inl e
                  | Inr (v, u) \<Rightarrow>
                      if length u \<le> length t then
                        (case skip_ws u of
                           [] \<Rightarrow> Inl JSONDecodeError
                         | d' # x \<Rightarrow>
                             if d' = CHR ''}'' then Inr ([(key, v)], x)
                             else if d' = CHR '','' then
                               (case skip_ws x of
                                  [] \<Rightarrow> Inl JSONDecodeError
                                | q # y \<Rightarrow>
                                    if q = CHR 0x22 then
                                      (case parse_members y of
                                         Inl e \<Rightarrow> Inl e
                                       | Inr (kvs, z) \<Rightarrow> Inr ((key, v) # kvs, z))
                                    else Inl JSONDecodeError)
                             else Inl JSONDecodeError)
                      else Inl JSONDecodeError)
               else Inl JSONDecodeError))"
  by pat_completeness auto

termination
proof (relation "measure (\<lambda>x. case x of
          Inl s \<Rightarrow> 2 * length s
        | Inr (Inl s) \<Rightarrow> 2 * length s + 1
        | Inr (Inr s) \<Rightarrow> 2 * length s + 1)", goal_cases)
  case 1
  then show ?case by simp
next
  case (2 c r d t)
  then show ?case using skip_ws_Cons_length [of r d t] by simp
next
  case (3 c r d t)
  then show ?case using skip_ws_length [of r] by simp
next
  case (4 s)
  then show ?case by simp
next
  case (5 s x v r d t)
  then show ?case
    using skip_ws_Cons_length [of r d t] skip_ws_length [of t] by simp
next
  case (6 s x key r d t)
  then show ?case
    using scan_string_shorter [of s key r] skip_ws_Cons_length [of r d t] skip_ws_length [of t]
    by simp
next
  case (7 s x key r d t x' v u d' xa q y)
  then show ?case
    using scan_string_shorter [of s key r] skip_ws_Cons_length [of r d t]
      skip_ws_Cons_length [of u d' xa] skip_ws_Cons_length [of xa q y]
    by simp
qed

declare parse_value.simps [simp del] parse_elems.simps [simp del] parse_members.simps [simp del]

definition json_loads :: "string \<Rightarrow> exn + pyval" where
  "json_loads s =
     (case parse_value (skip_ws s) of
        Inl e \<Rightarrow> Inl e
      | Inr (v, r) \<Rightarrow> if skip_ws r = [] then Inr v else Inl JSONDecodeError)"

text \<open>
  The tests \<open>length r \<le> length s\<close> and \<open>length u \<le> length t\<close> in \<open>parse_elems\<close> and
  \<open>parse_members\<close> are not steps of Python: they let the recursion be seen to end.
  They never fail, because every function leaves less text than it was given; so the
  decoder is the one of the two equations without them.
\<close>

lemma match_int_shorter: "match_int s = Some (ds, r) \<Longrightarrow> length r < length s"
  by (auto simp: match_int_def length_dropWhile_le less_Suc_eq_le split: list.splits if_splits)

lemma match_frac_shorter: "match_frac s = (f, r) \<Longrightarrow> length r \<le> length s"
  by (auto simp: match_frac_def split: list.splits if_splits
      intro: le_trans [OF length_dropWhile_le])

lemma match_exp_shorter: "match_exp s = (e, r) \<Longrightarrow> length r \<le> length s"
  by (auto simp: match_exp_def split: list.splits if_splits
      intro: le_trans [OF length_dropWhile_le])

lemma match_number_shorter:
  assumes "match_number s = Some (Inr (v, r))"
  shows "length r < length s"
proof -
  obtain sg s1 where sg: "(case s of c # r \<Rightarrow> if c = CHR ''-'' then ([c], r) else ([], s)
                             | [] \<Rightarrow> ([], s)) = (sg, s1)"
    by (cases "case s of c # r \<Rightarrow> if c = CHR ''-'' then ([c], r) else ([], s) | [] \<Rightarrow> ([], s)")
  then have l1: "length s1 \<le> length s" by (auto split: list.splits if_splits)
  from assms sg obtain ds s2 where mi: "match_int s1 = Some (ds, s2)"
    by (auto simp: match_number_def split: option.splits)
  obtain f s3 where mf: "match_frac s2 = (f, s3)" by (cases "match_frac s2")
  obtain e s4 where me: "match_exp s3 = (e, s4)" by (cases "match_exp s3")
  from assms sg mi mf me have "r = s4"
    by (auto simp: match_number_def split: if_splits)
  with l1 match_int_shorter [OF mi] match_frac_shorter [OF mf] match_exp_shorter [OF me]
  show ?thesis by simp
qed

lemma parse_shorter:
  "(\<forall>v r. parse_value s = Inr (v, r) \<longrightarrow> length r < length s)"
  "(\<forall>vs r. parse_elems s1 = Inr (vs, r) \<longrightarrow> length r < length s1)"
  "(\<forall>kvs r. parse_members s2 = Inr (kvs, r) \<longrightarrow> length r < length s2)"
proof (induction s and s1 and s2 rule: parse_value_parse_elems_parse_members.induct)
  case 1
  show ?case by (simp add: parse_value.simps)
next
  case (2 c r)
  show ?case
  proof (intro allI impI)
    fix v t
    assume a: "parse_value (c # r) = Inr (v, t)"
    consider (str) "c = CHR 0x22" | (obj) "c = CHR ''{''" | (arr) "c = CHR ''[''"
      | (other) "c \<noteq> CHR 0x22" "c \<noteq> CHR ''{''" "c \<noteq> CHR ''[''" by blast
    then show "length t < length (c # r)"
    proof cases
      case str
      with a obtain k where "scan_string r = Inr (k, t)"
        by (auto simp: parse_value.simps split: sum.splits)
      from scan_string_shorter [OF this] show ?thesis by simp
    next
      case obj
      with a obtain d u where sk: "skip_ws r = d # u"
        by (auto simp: parse_value.simps split: list.splits)
      from skip_ws_Cons_length [OF sk] have lu: "length u < length r" .
      show ?thesis
      proof (cases "d = CHR ''}''")
        case True
        with a obj sk have "t = u" by (simp add: parse_value.simps)
        with lu show ?thesis by simp
      next
        case False
        with a obj sk have q: "d = CHR 0x22"
          by (auto simp: parse_value.simps split: if_splits)
        with a obj sk False obtain kvs where "parse_members u = Inr (kvs, t)"
          by (auto simp: parse_value.simps split: sum.splits)
        moreover from obj have n1: "c \<noteq> CHR 0x22" by simp
        ultimately have "length t < length u"
          using 2(1) [OF n1 obj sk False q] by blast
        with lu show ?thesis by simp
      qed
    next
      case arr
      with a obtain d u where sk: "skip_ws r = d # u"
        by (auto simp: parse_value.simps split: list.splits)
      from skip_ws_Cons_length [OF sk] have lu: "length u < length r" .
      show ?thesis
      proof (cases "d = CHR '']''")
        case True
        with a arr sk have "t = u" by (simp add: parse_value.simps)
        with lu show ?thesis by simp
      next
        case False
        with a arr sk obtain vs where "parse_elems (d # u) = Inr (vs, t)"
          by (auto simp: parse_value.simps split: sum.splits)
        moreover from arr have n1: "c \<noteq> CHR 0x22" and n2: "c \<noteq> CHR ''{''" by simp_all
        ultimately have "length t < length (d # u)"
          using 2(2) [OF n1 n2 arr sk False] by blast
        with lu show ?thesis by simp
      qed
    next
      case other
      with a show ?thesis
        by (auto simp: parse_value.simps split: if_splits option.splits
            dest: match_number_shorter)
    qed
  qed
next
  case (3 s)
  show ?case
  proof (intro allI impI)
    fix vs t
    assume a: "parse_elems s = Inr (vs, t)"
    then obtain v r where pv: "parse_value s = Inr (v, r)"
      by (subst (asm) parse_elems.simps) (auto split: sum.splits)
    from 3(1) pv have lr: "length r < length s" by blast
    from a pv lr obtain d u where sk: "skip_ws r = d # u"
      by (subst (asm) parse_elems.simps) (auto split: list.splits)
    from skip_ws_Cons_length [OF sk] have lu: "length u < length r" .
    show "length t < length s"
    proof (cases "d = CHR '']''")
      case True
      with a pv lr sk have "t = u" by (subst (asm) parse_elems.simps) simp
      with lu lr show ?thesis by simp
    next
      case False
      with a pv lr sk have c: "d = CHR '',''"
        by (subst (asm) parse_elems.simps) (auto split: if_splits)
      with a pv lr sk False obtain ws where pe: "parse_elems (skip_ws u) = Inr (ws, t)"
        by (subst (asm) parse_elems.simps) (auto split: sum.splits)
      from lr have le: "length r \<le> length s" by simp
      from 3(2) [OF pv refl le sk False c] pe have "length t < length (skip_ws u)" by blast
      with skip_ws_length [of u] lu lr show ?thesis by simp
    qed
  qed
next
  case (4 s)
  show ?case
  proof (intro allI impI)
    fix kvs z
    assume a: "parse_members s = Inr (kvs, z)"
    then obtain key r where sc: "scan_string s = Inr (key, r)"
      by (subst (asm) parse_members.simps) (auto split: sum.splits)
    from scan_string_shorter [OF sc] have lr: "length r < length s" .
    from a sc obtain d t where sk: "skip_ws r = d # t"
      by (subst (asm) parse_members.simps) (auto split: list.splits)
    from skip_ws_Cons_length [OF sk] have lt: "length t < length r" .
    from a sc sk have c: "d = CHR '':''"
      by (subst (asm) parse_members.simps) (auto split: if_splits)
    from a sc sk c obtain v u where pv: "parse_value (skip_ws t) = Inr (v, u)"
      by (subst (asm) parse_members.simps) (auto split: sum.splits)
    from 4(1) [OF sc refl sk c] pv have lu0: "length u < length (skip_ws t)" by blast
    with skip_ws_length [of t] have lu: "length u \<le> length t" by simp
    from a sc sk c pv lu obtain d' x where sk2: "skip_ws u = d' # x"
      by (subst (asm) parse_members.simps) (auto split: list.splits)
    from skip_ws_Cons_length [OF sk2] have lx: "length x < length u" .
    show "length z < length s"
    proof (cases "d' = CHR ''}''")
      case True
      with a sc sk c pv lu sk2 have "z = x" by (subst (asm) parse_members.simps) simp
      with lx lu lt lr show ?thesis by simp
    next
      case False
      with a sc sk c pv lu sk2 have c2: "d' = CHR '',''"
        by (subst (asm) parse_members.simps) (auto split: if_splits)
      with a sc sk c pv lu sk2 False obtain q y where sk3: "skip_ws x = q # y"
        by (subst (asm) parse_members.simps) (auto split: list.splits)
      from skip_ws_Cons_length [OF sk3] have ly: "length y < length x" .
      from a sc sk c pv lu sk2 False c2 sk3 have q: "q = CHR 0x22"
        by (subst (asm) parse_members.simps) (auto split: if_splits)
      with a sc sk c pv lu sk2 False c2 sk3 obtain kvs' where pm: "parse_members y = Inr (kvs', z)"
        by (subst (asm) parse_members.simps) (auto split: sum.splits)
      from 4(2) [OF sc refl sk c pv refl lu sk2 False c2 sk3 q] pm
      have "length z < length y" by blast
      with ly lx lu lt lr show ?thesis by simp
    qed
  qed
qed

lemma parse_elems_plain:
  "parse_elems s =
     (case parse_value s of
        Inl e \<Rightarrow> Inl e
      | Inr (v, r) \<Rightarrow>
          (case skip_ws r of
             [] \<Rightarrow> Inl JSONDecodeError
           | d # t \<Rightarrow>
               if d = CHR '']'' then Inr ([v], t)
               else if d = CHR '','' then
                 (case parse_elems (skip_ws t) of
                    Inl e \<Rightarrow> Inl e
                  | Inr (vs, u) \<Rightarrow> Inr (v # vs, u))
               else Inl JSONDecodeError))"
proof (cases "parse_value s")
  case (Inl e)
  then show ?thesis by (subst parse_elems.simps) simp
next
  case (Inr p)
  obtain v r where p: "p = (v, r)" by (cases p)
  with Inr parse_shorter(1) [of s] have "length r \<le> length s" by auto
  with Inr p show ?thesis by (subst parse_elems.simps) simp
qed

lemma parse_members_plain:
  "parse_members s =
     (case scan_string s of
        Inl e \<Rightarrow> Inl e
      | Inr (key, r) \<Rightarrow>
          (case skip_ws r of
             [] \<Rightarrow> Inl JSONDecodeError
           | d # t \<Rightarrow>
               if d = CHR '':'' then
                 (case parse_value (skip_ws t) of
                    Inl e \<Rightarrow> Inl e
                  | Inr (v, u) \<Rightarrow>
                      (case skip_ws u of
                         [] \<Rightarrow> Inl JSONDecodeError
                       | d' # x \<Rightarrow>
                           if d' = CHR ''}'' then Inr ([(key, v)], x)
                           else if d' = CHR '','' then
                             (case skip_ws x of
                                [] \<Rightarrow> Inl JSONDecodeError
                              | q # y \<Rightarrow>
                                  if q = CHR 0x22 then
                                    (case parse_members y of
                                       Inl e \<Rightarrow> Inl e
                                     | Inr (kvs, z) \<Rightarrow> Inr ((key, v) # kvs, z))
                                  else Inl JSONDecodeError)
                           else Inl JSONDecodeError))
               else Inl JSONDecodeError))"
proof -
  have g: "length u \<le> length t" if "parse_value (skip_ws t) = Inr (v, u)" for t v u
  proof -
    from that parse_shorter(1) [of "skip_ws t"] have "length u < length (skip_ws t)" by blast
    with skip_ws_length [of t] show ?thesis by simp
  qed
  show ?thesis
    by (subst parse_members.simps) (auto split: sum.splits list.splits simp: g)
qed


section \<open>Story text generation\<close>

subsection \<open>Extraction of the JSON payload\<close>

text \<open>
  \<^verbatim>\<open>if "```json" in text:
      text = text.split("```json")[1].split("```")[0].strip()
  elif "```" in text:
      text = text.split("```")[1].split("```")[0].strip()\<close>
\<close>

definition fence :: string where
  "fence = ''```''"

definition json_fence :: string where
  "json_fence = ''```json''"

definition between_fences :: "string \<Rightarrow> string \<Rightarrow> exn + string" where
  "between_fences text opening =
     and_then (py_split text opening) (\<lambda>parts.
     and_then (py_index parts 1) (\<lambda>behind.
     and_then (py_split behind fence) (\<lambda>parts'.
     and_then (py_index parts' 0) (\<lambda>inner.
     Inr (py_strip inner)))))"

definition extract_json :: "string \<Rightarrow> exn + string" where
  "extract_json text =
     (if py_in json_fence text then between_fences text json_fence
      else if py_in fence text then between_fences text fence
      else Inr text)"

subsection \<open>The prompt\<close>

definition system_instruction :: "int \<Rightarrow> string" where
  \<open>system_instruction pages =
     ''\<newline>You are a children's storybook writer. Create engaging, age-appropriate stories.\<newline>'' @
     ''\<newline>Generate a '' @ str_int pages @ ''-page storybook based on the user's prompt.\<newline>'' @
     ''Each page should have 2-3 sentences suitable for children.\<newline>'' @
     ''Maintain consistent characters and plot progression.\<newline>'' @
     ''\<newline>Return ONLY valid JSON in this exact format:\<newline>'' @
     ''{\<newline>'' @
     ''  "title": "Story Title",\<newline>'' @
     ''  "pages": [\<newline>'' @
     ''    {"page_num": 1, "text": "Page 1 text here..."},\<newline>'' @
     ''    {"page_num": 2, "text": "Page 2 text here..."}\<newline>'' @
     ''  ]\<newline>'' @
     ''}\<newline>''\<close>

definition full_prompt :: "string \<Rightarrow> int \<Rightarrow> string" where
  "full_prompt prompt pages =
     system_instruction pages @ ''\<newline>\<newline>User story prompt: '' @ prompt"

subsection \<open>\<^verbatim>\<open>_generate_story_text\<close>\<close>

text \<open>
  A call of \<^verbatim>\<open>generate_content\<close> is a step of the service: from the request and the
  state \<open>w\<close> of the world it either raises or hands back a response, and leaves a new
  state. The \<^verbatim>\<open>text\<close> property of a response is the text or, for a response without
  text (a refusal), an exception. \<open>loads\<close> is \<^verbatim>\<open>json.loads\<close>.
\<close>

type_synonym response = "exn + string"

type_synonym 'w service = "string \<Rightarrow> 'w \<Rightarrow> (exn + response) \<times> 'w"

text \<open>
  The body of the \<^verbatim>\<open>try\<close> block. Its last step before the \<^verbatim>\<open>return\<close> is
  \<^verbatim>\<open>print(f"... Story text generated: {story_data['title']}")\<close>: the lookup of the title
  may raise, and so may the print itself, for a title that the console cannot encode.
  \<open>console\<close> says for a title whether printing that line raises, and what; what the
  print writes is left out.
\<close>

definition try_parse ::
  "(string \<Rightarrow> exn + pyval) \<Rightarrow> (pyval \<Rightarrow> exn option) \<Rightarrow> response \<Rightarrow> exn + pyval" where
  "try_parse loads console response =
     and_then response (\<lambda>text.
     and_then (extract_json text) (\<lambda>text'.
     and_then (loads text') (\<lambda>story_data.
     and_then (py_getitem story_data ''title'') (\<lambda>title.
     (case console title of
        Some e \<Rightarrow> Inl e
      | None \<Rightarrow> Inr story_data)))))"

text \<open>\<^verbatim>\<open>try: ... except Exception: return fallback\<close>\<close>

definition parse_or_fallback ::
  "(string \<Rightarrow> exn + pyval) \<Rightarrow> (pyval \<Rightarrow> exn option) \<Rightarrow> response \<Rightarrow> int \<Rightarrow> pyval" where
  "parse_or_fallback loads console response pages =
     (case try_parse loads console response of
        Inr story_data \<Rightarrow> story_data
      | Inl e \<Rightarrow> fallback_story pages)"

definition generate_story_text ::
  "'w service \<Rightarrow> (string \<Rightarrow> exn + pyval) \<Rightarrow> (pyval \<Rightarrow> exn option) \<Rightarrow>
     string \<Rightarrow> int \<Rightarrow> 'w \<Rightarrow> (exn + pyval) \<times> 'w" where
  "generate_story_text model loads console prompt pages w =
     (case model (full_prompt prompt pages) w of
        (Inl e, w') \<Rightarrow> (Inl e, w')
      | (Inr response, w') \<Rightarrow> (Inr (parse_or_fallback loads console response pages), w'))"

section \<open>Image prompts\<close>

text \<open>
  What an f-string puts in for a value: a \<^verbatim>\<open>str\<close> as it is, \<^verbatim>\<open>None\<close>, a
  \<^verbatim>\<open>bool\<close> and an \<^verbatim>\<open>int\<close> by their names and digits. How Python prints a float,
  a list, a dictionary or another object is left to the parameter \<open>fmt\<close>.
\<close>

definition py_format :: "(pyval \<Rightarrow> string) \<Rightarrow> pyval \<Rightarrow> string" where
  "py_format fmt v =
     (case v of
        PStr s \<Rightarrow> s
      | PNone \<Rightarrow> ''None''
      | PBool b \<Rightarrow> (if b then ''True'' else ''False'')
      | PInt i \<Rightarrow> str_int i
      | _ \<Rightarrow> fmt v)"

definition image_prompt_request :: "string \<Rightarrow> string \<Rightarrow> string \<Rightarrow> string" where
  \<open>image_prompt_request page_text style_description title =
     ''\<newline>Based on this story page, create a detailed image generation prompt.\<newline>'' @
     ''\<newline>Page text: "'' @ page_text @ ''"\<newline>'' @
     ''Style: '' @ style_description @ ''\<newline>'' @
     ''Title: '' @ title @ ''\<newline>'' @
     ''\<newline>Generate a single, concise image prompt (2-3 sentences) that:\<newline>'' @
     ''- Captures the key scene/moment\<newline>'' @
     ''- Maintains character consistency\<newline>'' @
     ''- Specifies the artistic style\<newline>'' @
     ''- Is suitable for children's book illustration\<newline>'' @
     ''\<newline>Return ONLY the image prompt text, no extra commentary.\<newline>''\<close>

text \<open>The f-string of the loop body reads \<^verbatim>\<open>page['text']\<close>, then
  \<^verbatim>\<open>story_data['title']\<close>.\<close>

definition page_request ::
  "(pyval \<Rightarrow> string) \<Rightarrow> pyval \<Rightarrow> string \<Rightarrow> pyval \<Rightarrow> exn + string" where
  "page_request fmt story_data sd page =
     and_then (py_getitem page ''text'') (\<lambda>text.
     and_then (py_getitem story_data ''title'') (\<lambda>title.
     Inr (image_prompt_request (py_format fmt text) sd (py_format fmt title))))"

text \<open>
  One turn of the loop of \<^verbatim>\<open>_generate_image_prompts\<close>:
  \<^verbatim>\<open>response = self.image_model.generate_content(image_prompt_request)
  page["image_prompt"] = response.text.strip()\<close>
  It gives the page as the turn leaves it, or the exception that ends the loop.
\<close>

definition image_prompt_step ::
  "(pyval \<Rightarrow> string) \<Rightarrow> 'w service \<Rightarrow> pyval \<Rightarrow> string \<Rightarrow> pyval \<Rightarrow> 'w \<Rightarrow> (exn + pyval) \<times> 'w" where
  "image_prompt_step fmt image_model story_data sd page w =
     (case page_request fmt story_data sd page of
        Inl e \<Rightarrow> (Inl e, w)
      | Inr request \<Rightarrow>
          (case image_model request w of
             (Inl e, w') \<Rightarrow> (Inl e, w')
           | (Inr response, w') \<Rightarrow>
               (and_then response (\<lambda>text.
                  py_setitem page ''image_prompt'' (PStr (py_strip text))), w')))"

text \<open>
  A \<^verbatim>\<open>for\<close> loop over the pages that changes each page in place. The result is the
  exception that stopped it (if any), the pages as they are then, and the state of the
  world: the pages after the one that raised are as they were. Every page is an object
  of its own, as \<^verbatim>\<open>json.loads\<close> and the fallback build them: a change of one page
  is a change of no other.
\<close>

fun for_each_page ::
  "(pyval \<Rightarrow> 'w \<Rightarrow> (exn + pyval) \<times> 'w) \<Rightarrow> pyval list \<Rightarrow> 'w \<Rightarrow> exn option \<times> pyval list \<times> 'w" where
  "for_each_page body [] w = (None, [], w)"
| "for_each_page body (page # rest) w =
     (case body page w of
        (Inl e, w') \<Rightarrow> (Some e, page # rest, w')
      | (Inr page', w') \<Rightarrow>
          (case for_each_page body rest w' of
             (r, rest', w'') \<Rightarrow> (r, page' # rest', w'')))"

text \<open>
  The story after the loop. The pages that were changed are the elements of the list
  \<^verbatim>\<open>story_data["pages"]\<close>; a dictionary or a string in its place yields strings, which
  no turn of the loop can change.
\<close>

definition with_pages :: "pyval \<Rightarrow> pyval \<Rightarrow> pyval list \<Rightarrow> pyval" where
  "with_pages story_data pages_value pages' =
     (case (story_data, pages_value) of
        (PDict kvs, PList _) \<Rightarrow> PDict (dict_set kvs ''pages'' (PList pages'))
      | _ \<Rightarrow> story_data)"

text \<open>
  \<^verbatim>\<open>for page in story_data["pages"]: ...\<close> followed by \<^verbatim>\<open>return story_data\<close>. The
  result holds the exception raised, or \<open>None\<close> when the function returns; the value
  beside it is the story object, which is both what the caller passed and what is
  returned.
\<close>

definition for_pages_of ::
  "(pyval \<Rightarrow> 'w \<Rightarrow> (exn + pyval) \<times> 'w) \<Rightarrow> pyval \<Rightarrow> 'w \<Rightarrow> exn option \<times> pyval \<times> 'w" where
  "for_pages_of body story_data w =
     (case py_getitem story_data ''pages'' of
        Inl e \<Rightarrow> (Some e, story_data, w)
      | Inr pages_value \<Rightarrow>
          (case py_iter pages_value of
             Inl e \<Rightarrow> (Some e, story_data, w)
           | Inr pages \<Rightarrow>
               (case for_each_page body pages w of
                  (r, pages', w') \<Rightarrow> (r, with_pages story_data pages_value pages', w'))))"

definition generate_image_prompts ::
  "(pyval \<Rightarrow> string) \<Rightarrow> 'w service \<Rightarrow> pyval \<Rightarrow> string \<Rightarrow> 'w \<Rightarrow> exn option \<times> pyval \<times> 'w" where
  "generate_image_prompts fmt image_model story_data style w =
     for_pages_of (image_prompt_step fmt image_model story_data (style_desc style)) story_data w"

section \<open>\<^verbatim>\<open>generate_story\<close> and \<^verbatim>\<open>generate_with_images\<close>\<close>

definition generate_story ::
  "(pyval \<Rightarrow> string) \<Rightarrow> 'w service \<Rightarrow> 'w service \<Rightarrow> (string \<Rightarrow> exn + pyval) \<Rightarrow>
     (pyval \<Rightarrow> exn option) \<Rightarrow> string \<Rightarrow> int \<Rightarrow> string \<Rightarrow> 'w \<Rightarrow> (exn + pyval) \<times> 'w" where
  "generate_story fmt model image_model loads console prompt pages style w =
     (case generate_story_text model loads console prompt pages w of
        (Inl e, w') \<Rightarrow> (Inl e, w')
      | (Inr story_data, w') \<Rightarrow>
          (case generate_image_prompts fmt image_model story_data style w' of
             (Some e, story_data', w'') \<Rightarrow> (Inl e, w'')
           | (None, story_data', w'') \<Rightarrow> (Inr story_data', w'')))"

text \<open>
  \<^verbatim>\<open>image_result = image_generator_func(page["image_prompt"])
  page["image"] = image_result\<close>
  The function of the caller is a step of the world, like the service.
\<close>

type_synonym 'w image_generator = "pyval \<Rightarrow> 'w \<Rightarrow> (exn + pyval) \<times> 'w"

definition image_step :: "'w image_generator \<Rightarrow> pyval \<Rightarrow> 'w \<Rightarrow> (exn + pyval) \<times> 'w" where
  "image_step image_generator_func page w =
     (case py_getitem page ''image_prompt'' of
        Inl e \<Rightarrow> (Inl e, w)
      | Inr image_prompt \<Rightarrow>
          (case image_generator_func image_prompt w of
             (Inl e, w') \<Rightarrow> (Inl e, w')
           | (Inr image_result, w') \<Rightarrow> (py_setitem page ''image'' image_result, w')))"

definition generate_with_images ::
  "pyval \<Rightarrow> 'w image_generator \<Rightarrow> 'w \<Rightarrow> exn option \<times> pyval \<times> 'w" where
  "generate_with_images story_data image_generator_func w =
     for_pages_of (image_step image_generator_func) story_data w"

section \<open>\<^verbatim>\<open>json.dump\<close> and \<^verbatim>\<open>save_storybook\<close>\<close>

text \<open>
  \<^verbatim>\<open>json.dump(story_data, f, indent=2, ensure_ascii=False)\<close> writes the document piece by
  piece. What is modelled is the text written and the exception, if one is raised;
  what was written before it stays in the file. With \<^verbatim>\<open>ensure_ascii=False\<close> a string
  is written as it is, but for the quote, the backslash and the control characters
  below U+0020.
\<close>

definition hex_digit :: "nat \<Rightarrow> char" where
  "hex_digit n = (if n < 10 then char_of (48 + n) else char_of (87 + n))"

definition escape_char :: "char \<Rightarrow> string" where
  "escape_char c =
     (if c = CHR 0x22 then [CHR 0x5C, CHR 0x22]
      else if c = CHR 0x5C then [CHR 0x5C, CHR 0x5C]
      else if c = CHR 0x0A then [CHR 0x5C, CHR ''n'']
      else if c = CHR 0x0D then [CHR 0x5C, CHR ''r'']
      else if c = CHR 0x09 then [CHR 0x5C, CHR ''t'']
      else if c = CHR 0x08 then [CHR 0x5C, CHR ''b'']
      else if c = CHR 0x0C then [CHR 0x5C, CHR ''f'']
      else if (of_char c :: nat) < 32 then
        [CHR 0x5C, CHR ''u'', CHR ''0'', CHR ''0'',
         hex_digit ((of_char c :: nat) div 16), hex_digit ((of_char c :: nat) mod 16)]
      else [c])"

definition encode_basestring :: "string \<Rightarrow> string" where
  "encode_basestring s = CHR 0x22 # concat (map escape_char s) @ [CHR 0x22]"

type_synonym written = "string \<times> exn option"

text \<open>Writing one piece after another: an exception in the first ends the writing.\<close>

definition then_write :: "written \<Rightarrow> written \<Rightarrow> written" where
  "then_write a b =
     (case a of
        (s, Some e) \<Rightarrow> (s, Some e)
      | (s, None) \<Rightarrow> (case b of (t, x) \<Rightarrow> (s @ t, x)))"

definition newline_indent :: "nat \<Rightarrow> string" where
  "newline_indent level = CHR 0x0A # replicate (2 * level) CHR '' ''"

text \<open>The number of digits of an integer, and its numeral as the encoder prints it.\<close>

definition decimal_digits :: "int \<Rightarrow> nat" where
  "decimal_digits i = length (str_nat (nat \<bar>i\<bar>))"

definition int_repr :: "int \<Rightarrow> exn + string" where
  "int_repr i = (if max_str_digits < decimal_digits i then Inl ValueError else Inr (str_int i))"

text \<open>
  In a list the encoder holds back the bracket or the separator before an element
  (\<^verbatim>\<open>buf\<close>) and writes it together with a string, a number or a constant; before a
  list, a dictionary or any other object it writes \<^verbatim>\<open>buf\<close> first.
\<close>

definition buffered :: "string \<Rightarrow> written \<Rightarrow> written" where
  "buffered buf a =
     (case a of
        (s, Some e) \<Rightarrow> ([], Some e)
      | (s, None) \<Rightarrow> (buf @ s, None))"

fun is_scalar :: "pyval \<Rightarrow> bool" where
  "is_scalar (PList xs) = False"
| "is_scalar (PDict kvs) = False"
| "is_scalar (PObject n) = False"
| "is_scalar v = True"

text \<open>
  \<open>float_repr\<close> is the numeral Python prints for a float. An object of another type
  makes the encoder raise \<^verbatim>\<open>TypeError\<close>.
\<close>

fun dump_value :: "(string \<Rightarrow> string) \<Rightarrow> nat \<Rightarrow> pyval \<Rightarrow> written"
  and dump_elems :: "(string \<Rightarrow> string) \<Rightarrow> nat \<Rightarrow> string \<Rightarrow> pyval list \<Rightarrow> written"
  and dump_items :: "(string \<Rightarrow> string) \<Rightarrow> nat \<Rightarrow> (string \<times> pyval) list \<Rightarrow> written"
where
  "dump_value float_repr level PNone = (''null'', None)"
| "dump_value float_repr level (PBool b) = (if b then ''true'' else ''false'', None)"
| "dump_value float_repr level (PInt i) =
     (case int_repr i of Inl e \<Rightarrow> ([], Some e) | Inr s \<Rightarrow> (s, None))"
| "dump_value float_repr level (PFloat x) = (float_repr x, None)"
| "dump_value float_repr level (PStr s) = (encode_basestring s, None)"
| "dump_value float_repr level (PList xs) =
     (if xs = [] then (''[]'', None)
      else then_write
             (dump_elems float_repr (Suc level) (''['' @ newline_indent (Suc level)) xs)
             (newline_indent level @ '']'', None))"
| "dump_value float_repr level (PDict kvs) =
     (if kvs = [] then (''{}'', None)
      else then_write (''{'' @ newline_indent (Suc level), None)
            (then_write (dump_items float_repr (Suc level) kvs)
               (newline_indent level @ ''}'', None)))"
| "dump_value float_repr level (PObject n) = ([], Some TypeError)"
| "dump_elems float_repr level buf [] = ([], None)"
| "dump_elems float_repr level buf (x # xs) =
     then_write
       (if is_scalar x then buffered buf (dump_value float_repr level x)
        else then_write (buf, None) (dump_value float_repr level x))
       (if xs = [] then ([], None)
        else dump_elems float_repr level ('','' @ newline_indent level) xs)"
| "dump_items float_repr level [] = ([], None)"
| "dump_items float_repr level (kv # kvs) =
     then_write (encode_basestring (fst kv) @ '': '', None)
       (then_write (dump_value float_repr level (snd kv))
          (if kvs = [] then ([], None)
           else then_write ('','' @ newline_indent level, None)
                  (dump_items float_repr level kvs)))"


section \<open>Basic facts\<close>

lemma and_then_Inr [simp]: "and_then (Inr x) f = f x"
  by (simp add: and_then_def)

lemma and_then_Inl [simp]: "and_then (Inl e) f = Inl e"
  by (simp add: and_then_def)

lemma digit_val_digit_char: "d < 10 \<Longrightarrow> digit_val (digit_char d) = d"
  by (simp add: digit_val_def digit_char_def)

lemma is_digit_digit_char: "d < 10 \<Longrightarrow> is_digit (digit_char d)"
  by (simp add: is_digit_def digit_char_def)

lemma decimal_val_snoc: "decimal_val (s @ [c]) = 10 * decimal_val s + digit_val c"
  by (simp add: decimal_val_def)

lemma str_nat_nonempty: "str_nat n \<noteq> []"
  by (subst str_nat.simps) simp

lemma str_nat_digits: "list_all is_digit (str_nat n)"
proof (induction n rule: str_nat.induct)
  case (1 n)
  show ?case
  proof (cases "n < 10")
    case True
    then show ?thesis by (subst str_nat.simps) (simp add: is_digit_digit_char)
  next
    case False
    with 1 show ?thesis by (subst str_nat.simps) (simp add: is_digit_digit_char)
  qed
qed

lemma decimal_val_str_nat: "decimal_val (str_nat n) = n"
proof (induction n rule: str_nat.induct)
  case (1 n)
  show ?case
  proof (cases "n < 10")
    case True
    then show ?thesis
      by (subst str_nat.simps) (simp add: decimal_val_def digit_val_digit_char)
  next
    case False
    with 1 show ?thesis
      by (subst str_nat.simps) (simp add: decimal_val_snoc digit_val_digit_char)
  qed
qed

lemma py_range_upt: "py_range n = map int [0..<nat n]"
proof -
  have "length (py_range n) = length (map int [0..<nat n])"
    by (simp add: py_range_def)
  moreover have "\<forall>k<length (py_range n). py_range n ! k = map int [0..<nat n] ! k"
    by (auto simp: py_range_def)
  ultimately show ?thesis by (simp add: list_eq_iff_nth_eq)
qed

lemma str_int_nat: "str_int (int k) = str_nat k"
  by (simp add: str_int_def)

lemma fallback_page_nat:
  "fallback_page (int k) =
     PDict [(''page_num'', PInt (int k + 1)),
            (''text'', PStr (''Page '' @ str_nat (Suc k) @ '' of your story...''))]"
proof -
  have "str_int (int k + 1) = str_nat (Suc k)"
    using str_int_nat [of "Suc k"] by (simp add: add.commute)
  then show ?thesis by (simp add: fallback_page_def)
qed

lemma fallback_story_upt:
  "fallback_story pages =
     PDict [(''title'', PStr ''A Magical Story''),
            (''pages'', PList (map (\<lambda>k. PDict [(''page_num'', PInt (int k + 1)),
                 (''text'', PStr (''Page '' @ str_nat (Suc k) @ '' of your story...''))])
               [0..<nat pages]))]"
  by (simp add: fallback_story_def py_range_upt fallback_page_nat comp_def)

lemma generate_story_text_fallback:
  "model (full_prompt prompt pages) w = (Inr response, w') \<Longrightarrow>
   try_parse loads console response = Inl e \<Longrightarrow>
   generate_story_text model loads console prompt pages w = (Inr (fallback_story pages), w')"
  by (simp add: generate_story_text_def parse_or_fallback_def)

lemma generate_story_text_parsed:
  "model (full_prompt prompt pages) w = (Inr response, w') \<Longrightarrow>
   try_parse loads console response = Inr story_data \<Longrightarrow>
   generate_story_text model loads console prompt pages w = (Inr story_data, w')"
  by (simp add: generate_story_text_def parse_or_fallback_def)

lemma generate_story_text_raises:
  "model (full_prompt prompt pages) w = (Inl e, w') \<Longrightarrow>
   generate_story_text model loads console prompt pages w = (Inl e, w')"
  by (simp add: generate_story_text_def)

lemma split_pieces_nonempty: "split_pieces sep tx \<noteq> []"
  by (induction tx) (auto split: list.splits)

lemma split_pieces_two:
  "sep \<noteq> [] \<Longrightarrow> py_in sep tx \<Longrightarrow> 2 \<le> length (split_pieces sep tx)"
proof (induction tx)
  case Nil
  then show ?case by simp
next
  case (Cons c cs)
  show ?case
  proof (cases "py_startswith (c # cs) sep")
    case True
    have "split_pieces sep (drop (length sep) (c # cs)) \<noteq> []"
      by (rule split_pieces_nonempty)
    then have "1 \<le> length (split_pieces sep (drop (length sep) (c # cs)))"
      by (cases "split_pieces sep (drop (length sep) (c # cs))") simp_all
    with True Cons.prems show ?thesis by simp
  next
    case False
    with Cons.prems have "py_in sep cs" by simp
    with Cons have "2 \<le> length (split_pieces sep cs)" by simp
    with False show ?thesis by (auto split: list.splits)
  qed
qed

lemma between_fences_Inr:
  assumes "opening \<noteq> []" and "py_in opening tx"
  shows "between_fences tx opening =
           Inr (py_strip (hd (split_pieces fence (split_pieces opening tx ! 1))))"
proof -
  have "1 < length (split_pieces opening tx)"
    using split_pieces_two [OF assms] by simp
  moreover have "0 < length (split_pieces fence (split_pieces opening tx ! 1))"
    using split_pieces_nonempty by simp
  ultimately show ?thesis
    using assms split_pieces_nonempty [of fence "split_pieces opening tx ! 1"]
    by (simp add: between_fences_def py_split_def py_index_def fence_def hd_conv_nth)
qed

lemma extract_json_returns: "\<exists>t. extract_json tx = Inr t"
  by (simp add: extract_json_def between_fences_Inr json_fence_def fence_def)

definition num_pages :: "pyval \<Rightarrow> int option" where
  "num_pages story_data =
     (case py_getitem story_data ''pages'' of
        Inr (PList ps) \<Rightarrow> Some (int (length ps))
      | _ \<Rightarrow> None)"

lemma num_pages_fallback: "num_pages (fallback_story pages) = Some (int (nat pages))"
  by (simp add: num_pages_def fallback_story_def py_range_upt)

section \<open>Story text generation: the fallback and the failures\<close>

text \<open>
  \<^bold>\<open>C4\<close> (as stated). Whenever the \<^verbatim>\<open>try\<close> block fails, for a page count of at least one,
  the story returned depends on the page count alone: its title is the fixed
  \<^verbatim>\<open>"A Magical Story"\<close>, it has exactly \<open>pages\<close> pages, the page at position \<open>k\<close>
  (counted from 0) has \<^verbatim>\<open>page_num\<close> \<open>k + 1\<close>, and its text is \<^verbatim>\<open>Page\<close>, the decimal
  numeral of \<open>k + 1\<close> and \<^verbatim>\<open>of your story...\<close>; that numeral is a non-empty row of
  digits whose value is \<open>k + 1\<close>.
\<close>

theorem fallback_story_is_placeholder:
  assumes "1 \<le> pages"
    and "model (full_prompt prompt pages) w = (Inr response, w')"
    and "try_parse loads console response = Inl e"
  shows "generate_story_text model loads console prompt pages w =
           (Inr (PDict [(''title'', PStr ''A Magical Story''),
                        (''pages'', PList (map (\<lambda>k. PDict [(''page_num'', PInt (int k + 1)),
                            (''text'', PStr (''Page '' @ str_nat (Suc k) @ '' of your story...''))])
                          [0..<nat pages]))]), w')
         \<and> int (length [0..<nat pages]) = pages
         \<and> (\<forall>k. str_nat (Suc k) \<noteq> [] \<and> list_all is_digit (str_nat (Suc k))
                \<and> decimal_val (str_nat (Suc k)) = Suc k)"
  using assms generate_story_text_fallback [of model prompt pages w response w' loads console e]
  by (simp add: fallback_story_upt str_nat_nonempty str_nat_digits decimal_val_str_nat)

text \<open>
  The theorem at a refusal of the model (\<^verbatim>\<open>response.text\<close> raises) and two pages.
\<close>

theorem fallback_story_is_placeholder_witness:
  "generate_story_text (\<lambda>request w. (Inr (Inl ValueError), w)) json_loads (\<lambda>title. None) ''A dragon'' 2 () =
     (Inr (PDict [(''title'', PStr ''A Magical Story''),
                  (''pages'', PList [PDict [(''page_num'', PInt 1),
                                           (''text'', PStr ''Page 1 of your story...'')],
                                    PDict [(''page_num'', PInt 2),
                                           (''text'', PStr ''Page 2 of your story...'')]])]), ())"
proof -
  have h1: "(1::int) \<le> 2" by simp
  have h2: "(\<lambda>request w. (Inr (Inl ValueError), w)) (full_prompt ''A dragon'' 2) () =
              (Inr (Inl ValueError), ())" by simp
  have h3: "try_parse json_loads (\<lambda>title. None) (Inl ValueError) = Inl ValueError"
    by (simp add: try_parse_def)
  have two: "[0..<2] = [0, Suc 0]"
    by code_simp
  have s1: "str_nat (Suc 0) = ''1''"
    by code_simp
  have s2: "str_nat (Suc (Suc 0)) = ''2''"
    by code_simp
  from fallback_story_is_placeholder [of 2 "\<lambda>request w. (Inr (Inl ValueError), w)" "''A dragon''" "()" "Inl ValueError" "()" json_loads "\<lambda>title. None" ValueError, OF h1 h2 h3] show ?thesis
    by (simp add: two s1 s2)
qed


text \<open>
  \<^bold>\<open>C1\<close> fails as stated: three pages are asked for, the model answers with a story
  of one page, the answer parses and has a title, and \<^verbatim>\<open>_generate_story_text\<close> returns
  it as it is, with one page.
\<close>

theorem story_text_page_count_counterexample:
  \<open>generate_story_text
      (\<lambda>request w. (Inr (Inr ''{"title": "T", "pages": [{"page_num": 1, "text": "x"}]}''), w))
      json_loads (\<lambda>title. None) ''A dragon'' 3 () =
     (Inr (PDict [(''title'', PStr ''T''),
                  (''pages'', PList [PDict [(''page_num'', PInt 1), (''text'', PStr ''x'')]])]), ())
   \<and> num_pages (PDict [(''title'', PStr ''T''),
                  (''pages'', PList [PDict [(''page_num'', PInt 1), (''text'', PStr ''x'')]])])
       = Some 1\<close>
  by code_simp

text \<open>
  \<^bold>\<open>C1\<close> (amended). For a positive page count and a model call that returns, the phase
  returns a story, and that story has exactly \<open>pages\<close> pages whenever the fallback was
  taken, that is, whenever a step of the \<^verbatim>\<open>try\<close> block raised. Nothing is said of
  the pages of a story that the \<^verbatim>\<open>try\<close> block returned.
\<close>

theorem story_text_page_count:
  assumes "0 < pages"
    and "model (full_prompt prompt pages) w = (Inr response, w')"
  shows "\<exists>story_data.
           generate_story_text model loads console prompt pages w = (Inr story_data, w')
           \<and> (\<forall>e. try_parse loads console response = Inl e \<longrightarrow> num_pages story_data = Some pages)"
proof (cases "try_parse loads console response")
  case (Inl e)
  from assms(1) have "num_pages (fallback_story pages) = Some pages"
    by (simp add: num_pages_fallback)
  with Inl assms(2) show ?thesis
    using generate_story_text_fallback [of model prompt pages w response w' loads console e]
    by simp
next
  case (Inr story_data)
  with assms(2) show ?thesis
    using generate_story_text_parsed [of model prompt pages w response w' loads console story_data]
    by simp
qed

text \<open>
  The theorem at a response that is no JSON: the story returned has three pages.
\<close>

theorem story_text_page_count_witness:
  "\<exists>story_data.
     generate_story_text (\<lambda>request w. (Inr (Inr ''Once upon a time''), w)) json_loads
       (\<lambda>title. None) ''A dragon'' 3 () = (Inr story_data, ())
     \<and> num_pages story_data = Some 3"
proof -
  have h1: "(0::int) < 3" by simp
  have h2: "(\<lambda>request w. (Inr (Inr ''Once upon a time''), w)) (full_prompt ''A dragon'' 3) ()
              = (Inr (Inr ''Once upon a time''), ())" by simp
  have h3: "try_parse json_loads (\<lambda>title. None) (Inr ''Once upon a time'') = Inl JSONDecodeError"
    by code_simp
  from story_text_page_count [of 3 "\<lambda>request w. (Inr (Inr ''Once upon a time''), w)"
      "''A dragon''" "()" "Inr ''Once upon a time''" "()" json_loads "\<lambda>title. None", OF h1 h2]
  obtain story_data where
    g: "generate_story_text (\<lambda>request w. (Inr (Inr ''Once upon a time''), w)) json_loads
          (\<lambda>title. None) ''A dragon'' 3 () = (Inr story_data, ())"
    and n: "\<forall>e. try_parse json_loads (\<lambda>title. None) (Inr ''Once upon a time'') = Inl e
              \<longrightarrow> num_pages story_data = Some 3"
    by (elim exE conjE)
  from n h3 have "num_pages story_data = Some 3" by blast
  with g show ?thesis by blast
qed

text \<open>
  \<^bold>\<open>C2\<close> fails as stated: \<^verbatim>\<open>self.model.generate_content(full_prompt)\<close> stands before
  the \<^verbatim>\<open>try\<close>, so an exception of the service during the call reaches the caller.
\<close>

theorem story_text_failures_absorbed_counterexample:
  "generate_story_text (\<lambda>request w. (Inl (OtherError ''ServiceUnavailable''), w))
      json_loads (\<lambda>title. None) ''A dragon'' 3 () = (Inl (OtherError ''ServiceUnavailable''), ())"
  by (simp add: generate_story_text_def)

text \<open>
  \<^bold>\<open>C2\<close> (amended). An exception raised by the model call itself goes on to the caller.
  Once the call has returned a response, the phase returns a story and never raises:
  a response without text (a refusal), a text that \<^verbatim>\<open>json.loads\<close> rejects, a parsed
  value that has no \<^verbatim>\<open>title\<close> or is no object, and a print of the title that
  raises, each give the fallback story. The extraction of the payload between the
  fences cannot raise.
\<close>

theorem story_text_failures_absorbed:
  "(model (full_prompt prompt pages) w = (Inl e, w') \<longrightarrow>
      generate_story_text model loads console prompt pages w = (Inl e, w'))
   \<and> (model (full_prompt prompt pages) w = (Inr response, w') \<longrightarrow>
      (\<exists>story_data. generate_story_text model loads console prompt pages w = (Inr story_data, w'))
      \<and> (\<forall>e'. response = Inl e' \<longrightarrow>
             generate_story_text model loads console prompt pages w = (Inr (fallback_story pages), w'))
      \<and> (\<forall>t. response = Inr t \<longrightarrow>
             (\<exists>t'. extract_json t = Inr t'
                \<and> (\<forall>e'. loads t' = Inl e' \<longrightarrow>
                       generate_story_text model loads console prompt pages w
                         = (Inr (fallback_story pages), w'))
                \<and> (\<forall>v e'. loads t' = Inr v \<and> py_getitem v ''title'' = Inl e' \<longrightarrow>
                       generate_story_text model loads console prompt pages w
                         = (Inr (fallback_story pages), w'))
                \<and> (\<forall>v title e'. loads t' = Inr v \<and> py_getitem v ''title'' = Inr title
                         \<and> console title = Some e' \<longrightarrow>
                       generate_story_text model loads console prompt pages w
                         = (Inr (fallback_story pages), w')))))"
proof (intro conjI impI allI)
  assume "model (full_prompt prompt pages) w = (Inl e, w')"
  then show "generate_story_text model loads console prompt pages w = (Inl e, w')"
    by (rule generate_story_text_raises)
next
  assume "model (full_prompt prompt pages) w = (Inr response, w')"
  then show "\<exists>story_data. generate_story_text model loads console prompt pages w = (Inr story_data, w')"
    by (simp add: generate_story_text_def)
next
  fix e'
  assume "model (full_prompt prompt pages) w = (Inr response, w')" and "response = Inl e'"
  then show "generate_story_text model loads console prompt pages w = (Inr (fallback_story pages), w')"
    using generate_story_text_fallback [of model prompt pages w response w' loads console e']
    by (simp add: try_parse_def)
next
  fix t
  assume m: "model (full_prompt prompt pages) w = (Inr response, w')" and r: "response = Inr t"
  obtain t' where t': "extract_json t = Inr t'"
    using extract_json_returns by blast
  have a: "generate_story_text model loads console prompt pages w = (Inr (fallback_story pages), w')"
    if "loads t' = Inl e'" for e'
    using generate_story_text_fallback [of model prompt pages w response w' loads console e'] m r t' that
    by (simp add: try_parse_def)
  have b: "generate_story_text model loads console prompt pages w = (Inr (fallback_story pages), w')"
    if "loads t' = Inr v \<and> py_getitem v ''title'' = Inl e'" for v e'
    using generate_story_text_fallback [of model prompt pages w response w' loads console e'] m r t' that
    by (simp add: try_parse_def)
  have c: "generate_story_text model loads console prompt pages w = (Inr (fallback_story pages), w')"
    if "loads t' = Inr v \<and> py_getitem v ''title'' = Inr title \<and> console title = Some e'"
    for v title e'
    using generate_story_text_fallback [of model prompt pages w response w' loads console e'] m r t' that
    by (simp add: try_parse_def)
  from t' a b c
  show "\<exists>t'. extract_json t = Inr t'
          \<and> (\<forall>e'. loads t' = Inl e' \<longrightarrow>
                 generate_story_text model loads console prompt pages w = (Inr (fallback_story pages), w'))
          \<and> (\<forall>v e'. loads t' = Inr v \<and> py_getitem v ''title'' = Inl e' \<longrightarrow>
                 generate_story_text model loads console prompt pages w = (Inr (fallback_story pages), w'))
          \<and> (\<forall>v title e'. loads t' = Inr v \<and> py_getitem v ''title'' = Inr title
                   \<and> console title = Some e' \<longrightarrow>
                 generate_story_text model loads console prompt pages w = (Inr (fallback_story pages), w'))"
    by blast
qed

text \<open>
  The theorem at a response whose object has no title.
\<close>

theorem story_text_failures_absorbed_witness:
  \<open>generate_story_text (\<lambda>request w. (Inr (Inr ''{"pages": []}''), w)) json_loads (\<lambda>title. None) ''A dragon'' 3 ()
     = (Inr (fallback_story 3), ())\<close>
proof -
  have h1: \<open>(\<lambda>request w. (Inr (Inr ''{"pages": []}''), w)) (full_prompt ''A dragon'' 3) ()
              = (Inr (Inr ''{"pages": []}''), ())\<close> by simp
  have h2: \<open>extract_json ''{"pages": []}'' = Inr ''{"pages": []}''\<close>
    by code_simp
  have h3: \<open>json_loads ''{"pages": []}'' = Inr (PDict [(''pages'', PList [])])\<close>
    by code_simp
  have h4: "py_getitem (PDict [(''pages'', PList [])]) ''title'' = Inl (KeyError ''title'')"
    by simp
  from story_text_failures_absorbed [of "\<lambda>request w. (Inr (Inr ''{\"pages\": []}''), w)"
      "''A dragon''" 3 "()" "KeyError ''title''" "()" json_loads "\<lambda>title. None"
      "Inr ''{\"pages\": []}''"]
    h1 h2 h3 h4
  show ?thesis by auto
qed

section \<open>Style resolution is case-insensitive\<close>

text \<open>Two characters that are the same letter of the ASCII alphabet, in either case.\<close>

definition ascii_upper :: "char \<Rightarrow> bool" where
  "ascii_upper c = (65 \<le> (of_char c :: nat) \<and> (of_char c :: nat) \<le> 90)"

definition same_letter :: "char \<Rightarrow> char \<Rightarrow> bool" where
  "same_letter c d =
     (c = d \<or> (ascii_upper c \<and> (of_char d :: nat) = of_char c + 32)
            \<or> (ascii_upper d \<and> (of_char c :: nat) = of_char d + 32))"

definition same_name :: "string \<Rightarrow> string \<Rightarrow> bool" where
  "same_name s t = list_all2 same_letter s t"

definition generic_style :: string where
  "generic_style = ''high-quality children's book illustration''"

lemma of_char_eq_iff': "(of_char c :: nat) = of_char d \<longleftrightarrow> c = d"
  by simp

lemma char_of_plus32: "of_char d = (of_char c :: nat) + 32 \<Longrightarrow> char_of ((of_char c :: nat) + 32) = d"
  by (metis char_of_char)

lemma lower_char_same_letter:
  assumes "same_letter c d" and "lower_char d = d"
  shows "lower_char c = d"
proof -
  from assms(1) consider "c = d"
    | "ascii_upper c" "(of_char d :: nat) = of_char c + 32"
    | "ascii_upper d" "(of_char c :: nat) = of_char d + 32"
    by (auto simp: same_letter_def)
  then show ?thesis
  proof cases
    case 1
    with assms(2) show ?thesis by simp
  next
    case 2
    then show ?thesis
      by (simp add: lower_char_def Let_def ascii_upper_def char_of_plus32)
  next
    case 3
    from 3(1) have "lower_char d = char_of ((of_char d :: nat) + 32)"
      by (simp add: lower_char_def Let_def ascii_upper_def)
    with assms(2) have "char_of ((of_char d :: nat) + 32) = d" by simp
    then have "(of_char d :: nat) = (of_char d + 32) mod 256"
      by (metis of_char_of)
    with 3(1) show ?thesis by (simp add: ascii_upper_def)
  qed
qed

lemma same_letter_lower_char:
  assumes "lower_char c = d" and "(of_char d :: nat) < 128"
  shows "same_letter c d"
proof (cases "c = d")
  case True
  then show ?thesis by (simp add: same_letter_def)
next
  case False
  with assms(1) have up: "(65 \<le> (of_char c :: nat) \<and> (of_char c :: nat) \<le> 90)
      \<or> (192 \<le> (of_char c :: nat) \<and> (of_char c :: nat) \<le> 222 \<and> (of_char c :: nat) \<noteq> 215)"
    and d: "d = char_of ((of_char c :: nat) + 32)"
    by (auto simp: lower_char_def Let_def split: if_splits)
  from d have "(of_char d :: nat) = (of_char c + 32) mod 256" by simp
  with up assms(2) have "65 \<le> (of_char c :: nat) \<and> (of_char c :: nat) \<le> 90"
    and "(of_char d :: nat) = of_char c + 32"
    by auto
  then show ?thesis by (simp add: same_letter_def ascii_upper_def)
qed

lemma py_lower_same_name:
  "same_name s k \<Longrightarrow> \<forall>d\<in>set k. lower_char d = d \<Longrightarrow> py_lower s = k"
  unfolding same_name_def py_lower_def
  by (induction s k rule: list_all2_induct) (simp_all add: lower_char_same_letter)

lemma same_name_py_lower:
  "py_lower s = k \<Longrightarrow> \<forall>d\<in>set k. (of_char d :: nat) < 128 \<Longrightarrow> same_name s k"
  unfolding same_name_def py_lower_def
  by (induction s arbitrary: k) (auto simp: same_letter_lower_char)

lemma style_keys:
  "fst ` set style_instructions =
     {''watercolor'', ''pixel art'', ''comics'', ''claymation'', ''crochet'', ''coloring book''}"
  by (simp add: style_instructions_def)

lemma style_key_lower:
  "key \<in> fst ` set style_instructions \<Longrightarrow> \<forall>d\<in>set key. lower_char d = d"
  unfolding style_keys by (auto simp: lower_char_def)

lemma style_key_ascii:
  "key \<in> fst ` set style_instructions \<Longrightarrow> \<forall>d\<in>set key. (of_char d :: nat) < 128"
  unfolding style_keys by auto

lemma style_keys_distinct: "distinct (map fst style_instructions)"
  by (simp add: style_instructions_def)

text \<open>
  \<^bold>\<open>C6\<close> (as stated). A style name that is a key of the catalogue up to the case of its
  letters resolves to the description of that key, and a name that is no key in any
  casing resolves to the generic description. \<open>style_desc\<close> is a total function into
  strings: resolution has no failing branch.
\<close>

theorem style_resolution:
  "((key, desc) \<in> set style_instructions \<and> same_name style key \<longrightarrow> style_desc style = desc)
   \<and> ((\<forall>key\<in>fst ` set style_instructions. \<not> same_name style key) \<longrightarrow>
        style_desc style = ''high-quality children's book illustration'')"
proof (intro conjI impI)
  assume a: "(key, desc) \<in> set style_instructions \<and> same_name style key"
  then have "key \<in> fst ` set style_instructions" by force
  with a have "py_lower style = key"
    using py_lower_same_name style_key_lower by blast
  moreover from a have "map_of style_instructions key = Some desc"
    using style_keys_distinct by simp
  ultimately show "style_desc style = desc" by (simp add: style_desc_def)
next
  assume n: "\<forall>key\<in>fst ` set style_instructions. \<not> same_name style key"
  have "map_of style_instructions (py_lower style) = None"
  proof (rule ccontr)
    assume "map_of style_instructions (py_lower style) \<noteq> None"
    then obtain d where "map_of style_instructions (py_lower style) = Some d" by blast
    then have "(py_lower style, d) \<in> set style_instructions" by (rule map_of_SomeD)
    then have k: "py_lower style \<in> fst ` set style_instructions" by force
    then have "same_name style (py_lower style)"
      using same_name_py_lower style_key_ascii by blast
    with n k show False by blast
  qed
  then show "style_desc style = ''high-quality children's book illustration''"
    by (simp add: style_desc_def)
qed

text \<open>
  The theorem at \<^verbatim>\<open>Pixel Art\<close>, \<^verbatim>\<open>pixel art\<close> and \<^verbatim>\<open>origami\<close>.
\<close>

theorem style_resolution_witness:
  "style_desc ''Pixel Art'' = ''8-bit pixel art style, retro gaming aesthetic, vibrant colors''
   \<and> style_desc ''pixel art'' = ''8-bit pixel art style, retro gaming aesthetic, vibrant colors''
   \<and> style_desc ''origami'' = ''high-quality children's book illustration''"
proof -
  have k: "(''pixel art'', ''8-bit pixel art style, retro gaming aesthetic, vibrant colors'')
             \<in> set style_instructions"
    by (simp add: style_instructions_def)
  have a: "same_name ''Pixel Art'' ''pixel art''"
    by (simp add: same_name_def same_letter_def ascii_upper_def)
  have b: "same_name ''pixel art'' ''pixel art''"
    by (simp add: same_name_def same_letter_def)
  have c: "\<forall>key\<in>fst ` set style_instructions. \<not> same_name ''origami'' key"
    unfolding style_keys by (simp add: same_name_def same_letter_def ascii_upper_def)
  show ?thesis
    using style_resolution [of "''pixel art''"
        "''8-bit pixel art style, retro gaming aesthetic, vibrant colors''" "''Pixel Art''"]
      style_resolution [of "''pixel art''"
        "''8-bit pixel art style, retro gaming aesthetic, vibrant colors''" "''pixel art''"]
      style_resolution [of "''pixel art''"
        "''8-bit pixel art style, retro gaming aesthetic, vibrant colors''" "''origami''"]
      k a b c
    by blast
qed

section \<open>The loops over the pages\<close>

text \<open>
  Calling a function on each argument of a list in turn, each call starting from the
  state of the world the call before left; the first exception ends the row. The result
  is what the calls returned, the exception if one was raised, and the last state.
\<close>

fun call_in_order ::
  "('a \<Rightarrow> 'w \<Rightarrow> (exn + 'b) \<times> 'w) \<Rightarrow> 'a list \<Rightarrow> 'w \<Rightarrow> 'b list \<times> exn option \<times> 'w" where
  "call_in_order f [] w = ([], None, w)"
| "call_in_order f (a # as) w =
     (case f a w of
        (Inl e, w') \<Rightarrow> ([], Some e, w')
      | (Inr r, w') \<Rightarrow>
          (case call_in_order f as w' of (rs, x, w'') \<Rightarrow> (r # rs, x, w'')))"

text \<open>The text of the response to a request: the call may raise, and so may
  \<^verbatim>\<open>response.text\<close>.\<close>

definition response_text :: "'w service \<Rightarrow> string \<Rightarrow> 'w \<Rightarrow> (exn + string) \<times> 'w" where
  "response_text model request w =
     (case model request w of
        (Inl e, w') \<Rightarrow> (Inl e, w')
      | (Inr response, w') \<Rightarrow> (response, w'))"

lemma call_in_order_length:
  "call_in_order f as w = (rs, x, w') \<Longrightarrow>
   length rs \<le> length as \<and> (x = None \<longleftrightarrow> length rs = length as)"
proof (induction as arbitrary: w rs x w')
  case Nil
  then show ?case by simp
next
  case (Cons a as)
  obtain y w1 where f: "f a w = (y, w1)" by (cases "f a w")
  show ?case
  proof (cases y)
    case (Inl e)
    with f Cons.prems show ?thesis by auto
  next
    case (Inr r)
    obtain rs1 x1 w2 where c: "call_in_order f as w1 = (rs1, x1, w2)"
      by (cases "call_in_order f as w1")
    from Cons.IH [OF c] Cons.prems f Inr c show ?thesis by auto
  qed
qed

lemma for_each_page_calls:
  assumes "\<forall>p\<in>set ps. \<forall>w. body p w =
             (case g (a p) w of
                (Inl e, w') \<Rightarrow> (Inl e, w')
              | (Inr r, w') \<Rightarrow> (Inr (st p r), w'))"
  shows "for_each_page body ps w =
           (case call_in_order g (map a ps) w of
              (rs, x, w') \<Rightarrow>
                (x, map (\<lambda>(p, r). st p r) (zip ps rs) @ drop (length rs) ps, w'))"
  using assms
proof (induction ps arbitrary: w)
  case Nil
  then show ?case by simp
next
  case (Cons p ps)
  obtain y w1 where g: "g (a p) w = (y, w1)" by (cases "g (a p) w")
  from Cons.prems have b: "body p w =
      (case g (a p) w of (Inl e, w') \<Rightarrow> (Inl e, w') | (Inr r, w') \<Rightarrow> (Inr (st p r), w'))"
    by simp
  show ?case
  proof (cases y)
    case (Inl e)
    with g b show ?thesis by simp
  next
    case (Inr r)
    from Cons.prems have "\<forall>p\<in>set ps. \<forall>w. body p w =
             (case g (a p) w of
                (Inl e, w') \<Rightarrow> (Inl e, w')
              | (Inr r, w') \<Rightarrow> (Inr (st p r), w'))" by simp
    from Cons.IH [OF this, of w1] Inr g b show ?thesis
      by (simp split: prod.splits)
  qed
qed

lemma for_each_page_rel:
  assumes "\<And>p w p' w'. body p w = (Inr p', w') \<Longrightarrow> R p p'"
    and "\<And>p. R p p"
    and "for_each_page body ps w = (x, ps', w')"
  shows "list_all2 R ps ps'"
  using assms(3)
proof (induction ps arbitrary: w x ps' w')
  case Nil
  then show ?case by simp
next
  case (Cons p ps)
  obtain y w1 where b: "body p w = (y, w1)" by (cases "body p w")
  show ?case
  proof (cases y)
    case (Inl e)
    with b Cons.prems have "ps' = p # ps" by simp
    then show ?thesis by (simp add: assms(2) list_all2_refl)
  next
    case (Inr p')
    obtain x1 ps1 w2 where f: "for_each_page body ps w1 = (x1, ps1, w2)"
      by (cases "for_each_page body ps w1")
    from Cons.IH [OF f] have "list_all2 R ps ps1" .
    moreover from b Inr have "R p p'" using assms(1) by blast
    moreover from Cons.prems b Inr f have "ps' = p' # ps1" by simp
    ultimately show ?thesis by simp
  qed
qed

text \<open>The value a dictionary holds under a key, and the dictionary with a key set.\<close>

definition item :: "pyval \<Rightarrow> string \<Rightarrow> pyval option" where
  "item p k = (case p of PDict d \<Rightarrow> map_of d k | _ \<Rightarrow> None)"

definition set_item :: "pyval \<Rightarrow> string \<Rightarrow> pyval \<Rightarrow> pyval" where
  "set_item p k v = (case p of PDict d \<Rightarrow> PDict (dict_set d k v) | _ \<Rightarrow> p)"

text \<open>The request \<^verbatim>\<open>_generate_image_prompts\<close> sends for a page that has a text, in a
  story that has a title.\<close>

definition request_for :: "(pyval \<Rightarrow> string) \<Rightarrow> pyval \<Rightarrow> string \<Rightarrow> pyval \<Rightarrow> string" where
  "request_for fmt story_data style page =
     image_prompt_request (py_format fmt (the (item page ''text''))) (style_desc style)
       (py_format fmt (the (item story_data ''title'')))"

text \<open>A string without white space at either end.\<close>

definition no_outer_space :: "string \<Rightarrow> bool" where
  "no_outer_space s = (s = [] \<or> (\<not> is_space (hd s) \<and> \<not> is_space (last s)))"

lemma map_of_dict_set: "map_of (dict_set d k v) k' = (if k' = k then Some v else map_of d k')"
  by (induction d) auto

lemma py_getitem_item: "py_getitem p k = Inr v \<longleftrightarrow> item p k = Some v"
  by (cases p) (auto simp: item_def split: option.splits)

lemma item_Some_getitem: "item p k = Some v \<Longrightarrow> py_getitem p k = Inr v"
  by (simp add: py_getitem_item)

lemma item_Some_setitem: "item p k = Some v \<Longrightarrow> py_setitem p k' v' = Inr (set_item p k' v')"
  by (cases p) (auto simp: item_def set_item_def)

lemma py_setitem_set_item: "py_setitem p k v = Inr p' \<Longrightarrow> p' = set_item p k v"
  by (cases p) (auto simp: set_item_def)

lemma item_set_item_same: "item p k' = Some u \<Longrightarrow> item (set_item p k v) k = Some v"
  by (cases p) (auto simp: item_def set_item_def map_of_dict_set)

lemma item_set_item_other: "k' \<noteq> k \<Longrightarrow> item (set_item p k v) k' = item p k'"
  by (cases p) (auto simp: item_def set_item_def map_of_dict_set)

lemma with_pages_set_item:
  "item story_data ''pages'' = Some (PList ps) \<Longrightarrow>
   with_pages story_data (PList ps) ps' = set_item story_data ''pages'' (PList ps')"
  by (cases story_data) (auto simp: with_pages_def set_item_def item_def)

lemma for_pages_of_list:
  assumes "item story_data ''pages'' = Some (PList ps)"
  shows "for_pages_of body story_data w =
           (case for_each_page body ps w of
              (r, ps', w') \<Rightarrow> (r, set_item story_data ''pages'' (PList ps'), w'))"
  using assms item_Some_getitem [OF assms]
  by (simp add: for_pages_of_def with_pages_set_item split: prod.splits)

lemma py_strip_no_outer_space: "no_outer_space (py_strip s)"
proof -
  define t where "t = dropWhile is_space s"
  define u where "u = dropWhile is_space (rev t)"
  have s: "py_strip s = rev u" by (simp add: py_strip_def t_def u_def)
  show ?thesis
  proof (cases "u = []")
    case True
    with s show ?thesis by (simp add: no_outer_space_def)
  next
    case False
    then have hu: "\<not> is_space (hd u)" unfolding u_def by (rule hd_dropWhile)
    from False have tn: "t \<noteq> []" by (auto simp: u_def)
    then have ht: "\<not> is_space (hd t)" unfolding t_def by (rule hd_dropWhile)
    obtain pre where "rev t = pre @ u"
      unfolding u_def by (metis takeWhile_dropWhile_id)
    with False have "last u = last (rev t)" by simp
    with tn have "last u = hd t" by (simp add: last_rev)
    with False hu ht s show ?thesis
      by (simp add: no_outer_space_def hd_rev last_rev)
  qed
qed

lemma py_strip_empty: "py_strip s = [] \<longleftrightarrow> list_all is_space s"
proof -
  have 1: "py_strip s = [] \<longleftrightarrow> (\<forall>c\<in>set (dropWhile is_space s). is_space c)"
    by (simp add: py_strip_def dropWhile_eq_Nil_conv)
  have 2: "(\<forall>c\<in>set (dropWhile is_space s). is_space c) \<longleftrightarrow> dropWhile is_space s = []"
  proof
    assume a: "\<forall>c\<in>set (dropWhile is_space s). is_space c"
    show "dropWhile is_space s = []"
    proof (rule ccontr)
      assume n: "dropWhile is_space s \<noteq> []"
      then have "\<not> is_space (hd (dropWhile is_space s))" by (rule hd_dropWhile)
      with a n show False by (meson hd_in_set)
    qed
  next
    assume "dropWhile is_space s = []"
    then show "\<forall>c\<in>set (dropWhile is_space s). is_space c"
      by (metis empty_iff list.set(1))
  qed
  have 3: "dropWhile is_space s = [] \<longleftrightarrow> list_all is_space s"
    unfolding dropWhile_eq_Nil_conv list_all_iff ..
  from 1 2 3 show ?thesis by blast
qed

lemma image_prompt_step_calls:
  assumes "item story_data ''title'' = Some title" and "item page ''text'' = Some tx"
  shows "image_prompt_step fmt image_model story_data (style_desc style) page w =
           (case response_text image_model (request_for fmt story_data style page) w of
              (Inl e, w') \<Rightarrow> (Inl e, w')
            | (Inr r, w') \<Rightarrow> (Inr (set_item page ''image_prompt'' (PStr (py_strip r))), w'))"
  using assms item_Some_getitem [OF assms(1)] item_Some_getitem [OF assms(2)]
    item_Some_setitem [OF assms(2)]
  by (auto simp: image_prompt_step_def page_request_def request_for_def response_text_def
      and_then_def split: prod.splits sum.splits)

lemma generate_image_prompts_calls:
  assumes "item story_data ''pages'' = Some (PList ps)"
    and "item story_data ''title'' \<noteq> None"
    and "\<forall>p\<in>set ps. item p ''text'' \<noteq> None"
    and "call_in_order (response_text image_model) (map (request_for fmt story_data style) ps) w
           = (rs, x, w')"
  shows "generate_image_prompts fmt image_model story_data style w =
           (x, set_item story_data ''pages''
                 (PList (map (\<lambda>(p, r). set_item p ''image_prompt'' (PStr (py_strip r))) (zip ps rs)
                         @ drop (length rs) ps)), w')"
proof -
  from assms(2) obtain title where t: "item story_data ''title'' = Some title" by blast
  have "\<forall>p\<in>set ps. \<forall>w. image_prompt_step fmt image_model story_data (style_desc style) p w =
           (case response_text image_model (request_for fmt story_data style p) w of
              (Inl e, w') \<Rightarrow> (Inl e, w')
            | (Inr r, w') \<Rightarrow> (Inr (set_item p ''image_prompt'' (PStr (py_strip r))), w'))"
  proof (intro ballI allI)
    fix p w
    assume "p \<in> set ps"
    with assms(3) obtain tx where "item p ''text'' = Some tx" by blast
    from image_prompt_step_calls [OF t this]
    show "image_prompt_step fmt image_model story_data (style_desc style) p w =
           (case response_text image_model (request_for fmt story_data style p) w of
              (Inl e, w') \<Rightarrow> (Inl e, w')
            | (Inr r, w') \<Rightarrow> (Inr (set_item p ''image_prompt'' (PStr (py_strip r))), w'))" .
  qed
  from for_each_page_calls [where ps = ps
      and body = "image_prompt_step fmt image_model story_data (style_desc style)"
      and g = "response_text image_model" and a = "request_for fmt story_data style"
      and st = "\<lambda>p r. set_item p ''image_prompt'' (PStr (py_strip r))" and w = w, OF this]
    assms(4)
  show ?thesis
    by (simp add: generate_image_prompts_def for_pages_of_list [OF assms(1)])
qed

lemma image_step_calls:
  assumes "item page ''image_prompt'' = Some q"
  shows "image_step f page w =
           (case f (the (item page ''image_prompt'')) w of
              (Inl e, w') \<Rightarrow> (Inl e, w')
            | (Inr r, w') \<Rightarrow> (Inr (set_item page ''image'' r), w'))"
  using assms item_Some_getitem [OF assms] item_Some_setitem [OF assms]
  by (auto simp: image_step_def split: prod.splits sum.splits)

lemma generate_with_images_calls:
  assumes "item story_data ''pages'' = Some (PList ps)"
    and "\<forall>p\<in>set ps. item p ''image_prompt'' \<noteq> None"
    and "call_in_order f (map (\<lambda>p. the (item p ''image_prompt'')) ps) w = (rs, x, w')"
  shows "generate_with_images story_data f w =
           (x, set_item story_data ''pages''
                 (PList (map (\<lambda>(p, r). set_item p ''image'' r) (zip ps rs)
                         @ drop (length rs) ps)), w')"
proof -
  have "\<forall>p\<in>set ps. \<forall>w. image_step f p w =
           (case f (the (item p ''image_prompt'')) w of
              (Inl e, w') \<Rightarrow> (Inl e, w')
            | (Inr r, w') \<Rightarrow> (Inr (set_item p ''image'' r), w'))"
  proof (intro ballI allI)
    fix p w
    assume "p \<in> set ps"
    with assms(2) obtain q where "item p ''image_prompt'' = Some q" by blast
    from image_step_calls [OF this]
    show "image_step f p w =
           (case f (the (item p ''image_prompt'')) w of
              (Inl e, w') \<Rightarrow> (Inl e, w')
            | (Inr r, w') \<Rightarrow> (Inr (set_item p ''image'' r), w'))" .
  qed
  from for_each_page_calls [where ps = ps and body = "image_step f" and g = f
      and a = "\<lambda>p. the (item p ''image_prompt'')"
      and st = "\<lambda>p r. set_item p ''image'' r" and w = w, OF this]
    assms(3)
  show ?thesis
    by (simp add: generate_with_images_def for_pages_of_list [OF assms(1)])
qed

lemma nth_stored:
  assumes "length rs \<le> length ps"
  shows "i < length rs \<Longrightarrow>
           (map (\<lambda>(p, r). st p r) (zip ps rs) @ drop (length rs) ps) ! i = st (ps ! i) (rs ! i)"
    and "length rs \<le> i \<Longrightarrow> i < length ps \<Longrightarrow>
           (map (\<lambda>(p, r). st p r) (zip ps rs) @ drop (length rs) ps) ! i = ps ! i"
    and "length (map (\<lambda>(p, r). st p r) (zip ps rs) @ drop (length rs) ps) = length ps"
  using assms by (auto simp: nth_append min_def)

text \<open>
  \<^bold>\<open>C5\<close> (amended). For a story with a title whose pages each have a text, when every
  call of the model returns a text: \<^verbatim>\<open>_generate_image_prompts\<close> returns, the story it
  returns is the story it was given with its pages changed in place, the pages are as
  many as before and in the same order, and page \<open>i\<close> carries under \<^verbatim>\<open>image_prompt\<close>
  the text of the response to the request for page \<open>i\<close> without the white space
  at its ends. That prompt is empty exactly when the response is white space only.
  The calls are those of \<open>call_in_order\<close>: one per page, in the order of the pages.
\<close>

theorem image_prompts_stored:
  assumes "item story_data ''pages'' = Some (PList ps)"
    and "item story_data ''title'' \<noteq> None"
    and "\<forall>p\<in>set ps. item p ''text'' \<noteq> None"
    and "call_in_order (response_text image_model) (map (request_for fmt story_data style) ps) w
           = (rs, None, w')"
  shows "\<exists>ps'. generate_image_prompts fmt image_model story_data style w
               = (None, set_item story_data ''pages'' (PList ps'), w')
           \<and> length ps' = length ps \<and> length rs = length ps
           \<and> (\<forall>i<length ps.
                 ps' ! i = set_item (ps ! i) ''image_prompt'' (PStr (py_strip (rs ! i)))
                 \<and> item (ps' ! i) ''image_prompt'' = Some (PStr (py_strip (rs ! i)))
                 \<and> no_outer_space (py_strip (rs ! i))
                 \<and> (py_strip (rs ! i) = [] \<longleftrightarrow> list_all is_space (rs ! i)))"
proof -
  let ?st = "\<lambda>p r. set_item p ''image_prompt'' (PStr (py_strip r))"
  let ?ps' = "map (\<lambda>(p, r). ?st p r) (zip ps rs) @ drop (length rs) ps"
  from call_in_order_length [OF assms(4)] have len: "length rs = length ps" by simp
  have g: "generate_image_prompts fmt image_model story_data style w
             = (None, set_item story_data ''pages'' (PList ?ps'), w')"
    by (rule generate_image_prompts_calls [OF assms])
  have "ps' ! i = ?st (ps ! i) (rs ! i)
        \<and> item (?ps' ! i) ''image_prompt'' = Some (PStr (py_strip (rs ! i)))"
    if "i < length ps" and "ps' = ?ps'" for i ps'
  proof -
    from that len have n: "?ps' ! i = ?st (ps ! i) (rs ! i)"
      using nth_stored(1) [of rs ps i ?st] by simp
    from that assms(3) obtain tx where "item (ps ! i) ''text'' = Some tx"
      by (metis nth_mem not_None_eq)
    then have "item (?st (ps ! i) (rs ! i)) ''image_prompt'' = Some (PStr (py_strip (rs ! i)))"
      by (rule item_set_item_same)
    with n that show ?thesis by simp
  qed
  moreover have "length ?ps' = length ps" using len by simp
  ultimately show ?thesis
    using g len py_strip_no_outer_space py_strip_empty by blast
qed

lemma call_in_order_raised:
  "call_in_order f as w = (rs, Some e, w') \<Longrightarrow>
   \<exists>w1. call_in_order f (take (length rs) as) w = (rs, None, w1)
        \<and> length rs < length as \<and> f (as ! length rs) w1 = (Inl e, w')"
proof (induction as arbitrary: w rs)
  case Nil
  then show ?case by simp
next
  case (Cons a as)
  obtain y w1 where f: "f a w = (y, w1)" by (cases "f a w")
  show ?case
  proof (cases y)
    case (Inl e1)
    with f Cons.prems show ?thesis by auto
  next
    case (Inr r)
    obtain rs1 x1 w2 where c: "call_in_order f as w1 = (rs1, x1, w2)"
      by (cases "call_in_order f as w1")
    with Cons.prems f Inr have eq: "rs = r # rs1" "x1 = Some e" "w2 = w'" by auto
    from Cons.IH [of w1 rs1] c eq obtain w3 where
      "call_in_order f (take (length rs1) as) w1 = (rs1, None, w3)"
      "length rs1 < length as" "f (as ! length rs1) w3 = (Inl e, w')" by blast
    with f Inr eq show ?thesis by auto
  qed
qed

definition example_story :: pyval where
  "example_story =
     PDict [(''title'', PStr ''T''),
            (''pages'', PList [PDict [(''page_num'', PInt 1), (''text'', PStr ''x'')],
                              PDict [(''page_num'', PInt 2), (''text'', PStr ''y'')]])]"

text \<open>
  \<^bold>\<open>C5\<close> fails as stated: a model that answers with two blanks leaves every page with
  the empty string as its \<^verbatim>\<open>image_prompt\<close>.
\<close>

theorem image_prompts_stored_counterexample:
  "generate_image_prompts (\<lambda>v. []) (\<lambda>request w. (Inr (Inr ''  ''), w)) example_story ''comics'' ()
     = (None,
        PDict [(''title'', PStr ''T''),
               (''pages'', PList [PDict [(''page_num'', PInt 1), (''text'', PStr ''x''),
                                        (''image_prompt'', PStr [])],
                                 PDict [(''page_num'', PInt 2), (''text'', PStr ''y''),
                                        (''image_prompt'', PStr [])]])],
        ())"
  by code_simp

text \<open>
  The theorem at the example story and a model that answers \<^verbatim>\<open>" a dragon  "\<close>.
\<close>

theorem image_prompts_stored_witness:
  "\<exists>ps'. generate_image_prompts (\<lambda>v. []) (\<lambda>request w. (Inr (Inr '' a dragon  ''), w))
            example_story ''comics'' ()
          = (None, set_item example_story ''pages'' (PList ps'), ())
        \<and> length ps' = 2
        \<and> item (ps' ! 0) ''image_prompt'' = Some (PStr ''a dragon'')
        \<and> item (ps' ! 1) ''image_prompt'' = Some (PStr ''a dragon'')"
proof -
  let ?ps = "[PDict [(''page_num'', PInt 1), (''text'', PStr ''x'')],
              PDict [(''page_num'', PInt 2), (''text'', PStr ''y'')]]"
  let ?m = "\<lambda>request w. (Inr (Inr '' a dragon  ''), w) :: (exn + response) \<times> unit"
  have h1: "item example_story ''pages'' = Some (PList ?ps)"
    by (simp add: example_story_def item_def)
  have h2: "item example_story ''title'' \<noteq> None"
    by (simp add: example_story_def item_def)
  have h3: "\<forall>p\<in>set ?ps. item p ''text'' \<noteq> None"
    by (simp add: item_def)
  have h4: "call_in_order (response_text ?m) (map (request_for (\<lambda>v. []) example_story ''comics'') ?ps) ()
              = (['' a dragon  '', '' a dragon  ''], None, ())"
    by (simp add: response_text_def)
  have s: "py_strip '' a dragon  '' = ''a dragon''"
    by code_simp
  from image_prompts_stored [OF h1 h2 h3 h4] obtain ps' where
    g: "generate_image_prompts (\<lambda>v. []) ?m example_story ''comics'' ()
          = (None, set_item example_story ''pages'' (PList ps'), ())"
    and l: "length ps' = length ?ps"
    and a: "\<forall>i<length ?ps. item (ps' ! i) ''image_prompt''
              = Some (PStr (py_strip (['' a dragon  '', '' a dragon  ''] ! i)))"
    by blast
  from a have "item (ps' ! 0) ''image_prompt'' = Some (PStr ''a dragon'')"
    and "item (ps' ! 1) ''image_prompt'' = Some (PStr ''a dragon'')"
    using s by auto
  with g l show ?thesis by auto
qed

text \<open>
  \<^bold>\<open>C7\<close> (as stated). For a story with a title whose pages each have a text, when the
  call for one page raises (the service, or \<^verbatim>\<open>response.text\<close>), after the calls for
  the pages before it have returned the texts \<open>rs\<close>: \<^verbatim>\<open>_generate_image_prompts\<close>
  raises that exception, the pages before the failing one carry their prompts, and
  the failing page and every page after it are as they were.
\<close>

theorem image_prompt_failure_propagates:
  assumes "item story_data ''pages'' = Some (PList ps)"
    and "item story_data ''title'' \<noteq> None"
    and "\<forall>p\<in>set ps. item p ''text'' \<noteq> None"
    and "call_in_order (response_text image_model) (map (request_for fmt story_data style) ps) w
           = (rs, Some e, w')"
  shows "\<exists>ps'. generate_image_prompts fmt image_model story_data style w
               = (Some e, set_item story_data ''pages'' (PList ps'), w')
           \<and> length ps' = length ps \<and> length rs < length ps
           \<and> (\<exists>w1. response_text image_model (request_for fmt story_data style (ps ! length rs)) w1
                      = (Inl e, w'))
           \<and> (\<forall>i<length rs.
                 ps' ! i = set_item (ps ! i) ''image_prompt'' (PStr (py_strip (rs ! i))))
           \<and> (\<forall>i. length rs \<le> i \<and> i < length ps \<longrightarrow> ps' ! i = ps ! i)"
proof -
  let ?st = "\<lambda>p r. set_item p ''image_prompt'' (PStr (py_strip r))"
  let ?ps' = "map (\<lambda>(p, r). ?st p r) (zip ps rs) @ drop (length rs) ps"
  from call_in_order_raised [OF assms(4)] obtain w1 where
    len: "length rs < length ps"
    and r: "response_text image_model (request_for fmt story_data style (ps ! length rs)) w1
              = (Inl e, w')"
    by auto
  have g: "generate_image_prompts fmt image_model story_data style w
             = (Some e, set_item story_data ''pages'' (PList ?ps'), w')"
    by (rule generate_image_prompts_calls [OF assms])
  from len have l: "length rs \<le> length ps" by simp
  have a: "\<forall>i<length rs. ?ps' ! i = ?st (ps ! i) (rs ! i)"
    using nth_stored(1) [OF l, of _ ?st] by blast
  have b: "\<forall>i. length rs \<le> i \<and> i < length ps \<longrightarrow> ?ps' ! i = ps ! i"
    using nth_stored(2) [OF l, of _ ?st] by blast
  have c: "length ?ps' = length ps" using l by simp
  from g c len r a b show ?thesis by blast
qed

text \<open>
  The theorem at the example story and a service that fails at its second call.
\<close>

theorem image_prompt_failure_propagates_witness:
  "\<exists>ps'. generate_image_prompts (\<lambda>v. [])
            (\<lambda>request w. (if w = Suc 0 then Inl (OtherError ''quota'') else Inr (Inr ''a dragon''), Suc w))
            example_story ''comics'' 0
          = (Some (OtherError ''quota''), set_item example_story ''pages'' (PList ps'), 2)
        \<and> length ps' = 2
        \<and> ps' ! 0 = PDict [(''page_num'', PInt 1), (''text'', PStr ''x''),
                           (''image_prompt'', PStr ''a dragon'')]
        \<and> ps' ! 1 = PDict [(''page_num'', PInt 2), (''text'', PStr ''y'')]"
proof -
  let ?ps = "[PDict [(''page_num'', PInt 1), (''text'', PStr ''x'')],
              PDict [(''page_num'', PInt 2), (''text'', PStr ''y'')]]"
  let ?m = "\<lambda>request w. (if w = Suc 0 then Inl (OtherError ''quota'') else Inr (Inr ''a dragon''), Suc w)
              :: (exn + response) \<times> nat"
  have h1: "item example_story ''pages'' = Some (PList ?ps)"
    by (simp add: example_story_def item_def)
  have h2: "item example_story ''title'' \<noteq> None"
    by (simp add: example_story_def item_def)
  have h3: "\<forall>p\<in>set ?ps. item p ''text'' \<noteq> None"
    by (simp add: item_def)
  have h4: "call_in_order (response_text ?m) (map (request_for (\<lambda>v. []) example_story ''comics'') ?ps) 0
              = ([''a dragon''], Some (OtherError ''quota''), 2)"
    by (simp add: response_text_def)
  have s: "py_strip ''a dragon'' = ''a dragon''"
    by code_simp
  from image_prompt_failure_propagates [OF h1 h2 h3 h4] obtain ps' where
    g: "generate_image_prompts (\<lambda>v. []) ?m example_story ''comics'' 0
          = (Some (OtherError ''quota''), set_item example_story ''pages'' (PList ps'), 2)"
    and l: "length ps' = length ?ps"
    and a: "\<forall>i<length [''a dragon''].
              ps' ! i = set_item (?ps ! i) ''image_prompt'' (PStr (py_strip ([''a dragon''] ! i)))"
    and b: "\<forall>i. length [''a dragon''] \<le> i \<and> i < length ?ps \<longrightarrow> ps' ! i = ?ps ! i"
    by blast
  from a s have "ps' ! 0 = PDict [(''page_num'', PInt 1), (''text'', PStr ''x''),
                           (''image_prompt'', PStr ''a dragon'')]"
    by (simp add: set_item_def)
  moreover from b have "ps' ! 1 = PDict [(''page_num'', PInt 2), (''text'', PStr ''y'')]"
    by simp
  ultimately show ?thesis using g l by auto
qed

text \<open>
  \<^bold>\<open>C8\<close> (as stated). For a story whose pages each carry an \<^verbatim>\<open>image_prompt\<close>,
  \<^verbatim>\<open>generate_with_images\<close> does what \<open>call_in_order\<close> does on the prompts of the pages:
  it calls the function once per page, in page order, with that prompt, and stores
  result \<open>i\<close> under \<^verbatim>\<open>image\<close> of page \<open>i\<close>. If a call raises, the exception leaves
  the function, the pages before keep their images, and the page of the failing call
  and all after it are as they were.
\<close>

theorem images_stored_in_order:
  assumes "item story_data ''pages'' = Some (PList ps)"
    and "\<forall>p\<in>set ps. item p ''image_prompt'' \<noteq> None"
    and "call_in_order f (map (\<lambda>p. the (item p ''image_prompt'')) ps) w = (rs, x, w')"
  shows "\<exists>ps'. generate_with_images story_data f w
               = (x, set_item story_data ''pages'' (PList ps'), w')
           \<and> length ps' = length ps \<and> length rs \<le> length ps
           \<and> (x = None \<longleftrightarrow> length rs = length ps)
           \<and> (\<forall>i<length rs. ps' ! i = set_item (ps ! i) ''image'' (rs ! i)
                               \<and> item (ps' ! i) ''image'' = Some (rs ! i))
           \<and> (\<forall>i. length rs \<le> i \<and> i < length ps \<longrightarrow> ps' ! i = ps ! i)
           \<and> (\<forall>e. x = Some e \<longrightarrow>
                 (\<exists>w1. call_in_order f (map (\<lambda>p. the (item p ''image_prompt''))
                                          (take (length rs) ps)) w = (rs, None, w1)
                       \<and> f (the (item (ps ! length rs) ''image_prompt'')) w1 = (Inl e, w')))"
proof -
  let ?a = "\<lambda>p. the (item p ''image_prompt'')"
  let ?st = "\<lambda>p r. set_item p ''image'' r"
  let ?ps' = "map (\<lambda>(p, r). ?st p r) (zip ps rs) @ drop (length rs) ps"
  from call_in_order_length [OF assms(3)]
  have l: "length rs \<le> length ps" and n: "x = None \<longleftrightarrow> length rs = length ps" by simp_all
  have g: "generate_with_images story_data f w
             = (x, set_item story_data ''pages'' (PList ?ps'), w')"
    by (rule generate_with_images_calls [OF assms])
  have a: "\<forall>i<length rs. ?ps' ! i = ?st (ps ! i) (rs ! i)
                          \<and> item (?ps' ! i) ''image'' = Some (rs ! i)"
  proof (intro allI impI)
    fix i assume i: "i < length rs"
    then have 1: "?ps' ! i = ?st (ps ! i) (rs ! i)"
      using nth_stored(1) [OF l, of i ?st] by simp
    from i l have "ps ! i \<in> set ps" by simp
    with assms(2) have "item (ps ! i) ''image_prompt'' \<noteq> None" by blast
    then obtain q where "item (ps ! i) ''image_prompt'' = Some q" by blast
    then have "item (?st (ps ! i) (rs ! i)) ''image'' = Some (rs ! i)"
      by (rule item_set_item_same)
    with 1 show "?ps' ! i = ?st (ps ! i) (rs ! i) \<and> item (?ps' ! i) ''image'' = Some (rs ! i)"
      by simp
  qed
  have b: "\<forall>i. length rs \<le> i \<and> i < length ps \<longrightarrow> ?ps' ! i = ps ! i"
    using nth_stored(2) [OF l, of _ ?st] by blast
  have c: "length ?ps' = length ps" using l by simp
  have d: "\<exists>w1. call_in_order f (map ?a (take (length rs) ps)) w = (rs, None, w1)
                \<and> f (?a (ps ! length rs)) w1 = (Inl e, w')" if "x = Some e" for e
  proof -
    from assms(3) that have "call_in_order f (map ?a ps) w = (rs, Some e, w')" by simp
    from call_in_order_raised [OF this]
    obtain w1 where 1: "call_in_order f (take (length rs) (map ?a ps)) w = (rs, None, w1)"
      and 2: "length rs < length (map ?a ps)" and 3: "f (map ?a ps ! length rs) w1 = (Inl e, w')"
      by blast
    from 2 have "map ?a ps ! length rs = ?a (ps ! length rs)" by simp
    with 1 3 show ?thesis by (simp add: take_map)
  qed
  show ?thesis
  proof (rule exI [of _ ?ps'], intro conjI)
    show "generate_with_images story_data f w
            = (x, set_item story_data ''pages'' (PList ?ps'), w')" by (rule g)
    show "length ?ps' = length ps" by (rule c)
    show "length rs \<le> length ps" by (rule l)
    show "x = None \<longleftrightarrow> length rs = length ps" by (rule n)
    show "\<forall>i<length rs. ?ps' ! i = ?st (ps ! i) (rs ! i)
                          \<and> item (?ps' ! i) ''image'' = Some (rs ! i)" by (rule a)
    show "\<forall>i. length rs \<le> i \<and> i < length ps \<longrightarrow> ?ps' ! i = ps ! i" by (rule b)
    show "\<forall>e. x = Some e \<longrightarrow>
            (\<exists>w1. call_in_order f (map ?a (take (length rs) ps)) w = (rs, None, w1)
                  \<and> f (?a (ps ! length rs)) w1 = (Inl e, w'))" using d by blast
  qed
qed

text \<open>
  The theorem at a story of two pages and a function that records its arguments and
  fails at the second page.
\<close>

theorem images_stored_in_order_witness:
  "\<exists>ps'. generate_with_images
            (PDict [(''title'', PStr ''T''),
                    (''pages'', PList [PDict [(''image_prompt'', PStr ''a'')],
                                      PDict [(''image_prompt'', PStr ''b'')]])])
            (\<lambda>image_prompt w. (if image_prompt = PStr ''b'' then Inl (OtherError ''busy'')
                                else Inr (PObject (length w)), w @ [image_prompt])) []
          = (Some (OtherError ''busy''),
             set_item (PDict [(''title'', PStr ''T''),
                    (''pages'', PList [PDict [(''image_prompt'', PStr ''a'')],
                                      PDict [(''image_prompt'', PStr ''b'')]])]) ''pages'' (PList ps'),
             [PStr ''a'', PStr ''b''])
        \<and> ps' ! 0 = PDict [(''image_prompt'', PStr ''a''), (''image'', PObject 0)]
        \<and> ps' ! 1 = PDict [(''image_prompt'', PStr ''b'')]"
proof -
  let ?ps = "[PDict [(''image_prompt'', PStr ''a'')], PDict [(''image_prompt'', PStr ''b'')]]"
  let ?story = "PDict [(''title'', PStr ''T''), (''pages'', PList ?ps)]"
  let ?f = "\<lambda>image_prompt w. (if image_prompt = PStr ''b'' then Inl (OtherError ''busy'')
                                else Inr (PObject (length w)), w @ [image_prompt])
              :: (exn + pyval) \<times> pyval list"
  have h1: "item ?story ''pages'' = Some (PList ?ps)"
    by (simp add: item_def)
  have h2: "\<forall>p\<in>set ?ps. item p ''image_prompt'' \<noteq> None"
    by (simp add: item_def)
  have h3: "call_in_order ?f (map (\<lambda>p. the (item p ''image_prompt'')) ?ps) []
              = ([PObject 0], Some (OtherError ''busy''), [PStr ''a'', PStr ''b''])"
    by (simp add: item_def)
  from images_stored_in_order [OF h1 h2 h3] obtain ps' where
    g: "generate_with_images ?story ?f []
          = (Some (OtherError ''busy''), set_item ?story ''pages'' (PList ps'),
             [PStr ''a'', PStr ''b''])"
    and a: "\<forall>i<length [PObject 0]. ps' ! i = set_item (?ps ! i) ''image'' ([PObject 0] ! i)"
    and b: "\<forall>i. length [PObject 0] \<le> i \<and> i < length ?ps \<longrightarrow> ps' ! i = ?ps ! i"
    by blast
  from a have "ps' ! 0 = PDict [(''image_prompt'', PStr ''a''), (''image'', PObject 0)]"
    by (simp add: set_item_def)
  moreover from b have "ps' ! 1 = PDict [(''image_prompt'', PStr ''b'')]"
    by simp
  ultimately show ?thesis using g by auto
qed


lemma image_prompt_step_frame:
  assumes "image_prompt_step fmt image_model story_data sd p w = (Inr p', w')"
  shows "\<exists>v. p' = set_item p ''image_prompt'' v"
proof -
  from assms obtain tx where "py_setitem p ''image_prompt'' (PStr (py_strip tx)) = Inr p'"
    by (auto simp: image_prompt_step_def and_then_def split: sum.splits prod.splits)
  then have "p' = set_item p ''image_prompt'' (PStr (py_strip tx))"
    by (rule py_setitem_set_item)
  then show ?thesis by blast
qed

lemma item_set_item_pages:
  "item story_data ''pages'' = Some v \<Longrightarrow> item (set_item story_data ''pages'' v') ''pages'' = Some v'"
  by (rule item_set_item_same)

text \<open>
  \<^bold>\<open>C10\<close> (as stated). Whatever the story, the model and the outcome,
  \<^verbatim>\<open>_generate_image_prompts\<close> leaves every item of the story but \<^verbatim>\<open>pages\<close> as it
  was (the title among them), keeps the number and the order of the pages, and changes
  a page at most by setting its \<^verbatim>\<open>image_prompt\<close>: every other item of every page,
  \<^verbatim>\<open>page_num\<close> and \<^verbatim>\<open>text\<close> among them, is as before.
\<close>

theorem image_prompts_frame:
  assumes "generate_image_prompts fmt image_model story_data style w = (x, story', w')"
  shows "(\<forall>k. k \<noteq> ''pages'' \<longrightarrow> item story' k = item story_data k)
       \<and> (\<forall>ps. item story_data ''pages'' = Some (PList ps) \<longrightarrow>
             (\<exists>ps'. item story' ''pages'' = Some (PList ps') \<and> length ps' = length ps
                \<and> (\<forall>i<length ps.
                      (ps' ! i = ps ! i \<or> (\<exists>v. ps' ! i = set_item (ps ! i) ''image_prompt'' v))
                      \<and> (\<forall>k. k \<noteq> ''image_prompt'' \<longrightarrow> item (ps' ! i) k = item (ps ! i) k))))
       \<and> ((\<forall>ps. item story_data ''pages'' \<noteq> Some (PList ps)) \<longrightarrow> story' = story_data)"
proof (cases "\<exists>ps. item story_data ''pages'' = Some (PList ps)")
  case True
  then obtain ps where ps: "item story_data ''pages'' = Some (PList ps)" by blast
  let ?body = "image_prompt_step fmt image_model story_data (style_desc style)"
  let ?R = "\<lambda>p p'. p' = p \<or> (\<exists>v. p' = set_item p ''image_prompt'' v)"
  obtain x1 ps' w1 where f: "for_each_page ?body ps w = (x1, ps', w1)"
    by (cases "for_each_page ?body ps w")
  with assms ps have s: "story' = set_item story_data ''pages'' (PList ps')"
    by (simp add: generate_image_prompts_def for_pages_of_list [OF ps])
  have "list_all2 ?R ps ps'"
  proof (rule for_each_page_rel [where body = ?body, OF _ _ f])
    fix p w p' w'
    assume "?body p w = (Inr p', w')"
    then have "\<exists>v. p' = set_item p ''image_prompt'' v"
      by (rule image_prompt_step_frame)
    then show "?R p p'" by (rule disjI2)
  next
    fix p show "?R p p" by simp
  qed
  then have len: "length ps' = length ps" and nth: "\<forall>i<length ps. ?R (ps ! i) (ps' ! i)"
    by (simp_all add: list_all2_conv_all_nth)
  have other: "\<forall>k. k \<noteq> ''image_prompt'' \<longrightarrow> item (ps' ! i) k = item (ps ! i) k"
    if "i < length ps" for i
  proof -
    from nth that have "?R (ps ! i) (ps' ! i)" by blast
    then show ?thesis by (auto simp: item_set_item_other)
  qed
  have pg: "item story' ''pages'' = Some (PList ps')"
    unfolding s using ps by (rule item_set_item_pages)
  have k: "\<forall>k. k \<noteq> ''pages'' \<longrightarrow> item story' k = item story_data k"
    unfolding s by (simp add: item_set_item_other)
  show ?thesis
  proof (intro conjI allI impI)
    fix k assume "k \<noteq> ''pages''"
    with k show "item story' k = item story_data k" by blast
  next
    fix qs assume "item story_data ''pages'' = Some (PList qs)"
    with ps have q: "qs = ps" by simp
    show "\<exists>ps'. item story' ''pages'' = Some (PList ps') \<and> length ps' = length qs
            \<and> (\<forall>i<length qs.
                  (ps' ! i = qs ! i \<or> (\<exists>v. ps' ! i = set_item (qs ! i) ''image_prompt'' v))
                  \<and> (\<forall>k. k \<noteq> ''image_prompt'' \<longrightarrow> item (ps' ! i) k = item (qs ! i) k))"
      unfolding q
    proof (rule exI [of _ ps'], intro conjI allI impI)
      show "item story' ''pages'' = Some (PList ps')" by (rule pg)
      show "length ps' = length ps" by (rule len)
    next
      fix i assume "i < length ps"
      with nth show "ps' ! i = ps ! i \<or> (\<exists>v. ps' ! i = set_item (ps ! i) ''image_prompt'' v)"
        by blast
    next
      fix i k assume "i < length ps" and "k \<noteq> ''image_prompt''"
      with other show "item (ps' ! i) k = item (ps ! i) k" by blast
    qed
  next
    assume "\<forall>ps. item story_data ''pages'' \<noteq> Some (PList ps)"
    with True show "story' = story_data" by blast
  qed
next
  case False
  have "story' = story_data"
  proof (cases "py_getitem story_data ''pages''")
    case (Inl e)
    with assms show ?thesis
      by (simp add: generate_image_prompts_def for_pages_of_def)
  next
    case (Inr pv)
    then have pv: "item story_data ''pages'' = Some pv" by (simp add: py_getitem_item)
    with False have nl: "\<forall>ps. pv \<noteq> PList ps" by blast
    then have wp: "with_pages story_data pv qs = story_data" for qs
      by (cases story_data; cases pv) (simp_all add: with_pages_def)
    from assms Inr wp show ?thesis
      by (auto simp: generate_image_prompts_def for_pages_of_def split: sum.splits prod.splits)
  qed
  with False show ?thesis by blast
qed

text \<open>
  The theorem at the example story.
\<close>

theorem image_prompts_frame_witness:
  "item (fst (snd (generate_image_prompts (\<lambda>v. []) (\<lambda>request w. (Inr (Inr ''a dragon''), w))
                     example_story ''comics'' ()))) ''title'' = Some (PStr ''T'')
   \<and> (\<exists>ps'. item (fst (snd (generate_image_prompts (\<lambda>v. []) (\<lambda>request w. (Inr (Inr ''a dragon''), w))
                     example_story ''comics'' ()))) ''pages'' = Some (PList ps')
          \<and> length ps' = 2
          \<and> item (ps' ! 0) ''page_num'' = Some (PInt 1)
          \<and> item (ps' ! 0) ''text'' = Some (PStr ''x'')
          \<and> item (ps' ! 1) ''page_num'' = Some (PInt 2)
          \<and> item (ps' ! 1) ''text'' = Some (PStr ''y''))"
proof -
  let ?ps = "[PDict [(''page_num'', PInt 1), (''text'', PStr ''x'')],
              PDict [(''page_num'', PInt 2), (''text'', PStr ''y'')]]"
  let ?g = "generate_image_prompts (\<lambda>v. []) (\<lambda>request w. (Inr (Inr ''a dragon''), w))
              example_story ''comics'' ()"
  obtain x story' w' where g: "?g = (x, story', w')" by (cases ?g)
  have h1: "item example_story ''pages'' = Some (PList ?ps)"
    by (simp add: example_story_def item_def)
  have t: "item example_story ''title'' = Some (PStr ''T'')"
    by (simp add: example_story_def item_def)
  note fr = image_prompts_frame [OF g]
  have
    a: "\<forall>k. k \<noteq> ''pages'' \<longrightarrow> item story' k = item example_story k"
    and b: "\<forall>ps. item example_story ''pages'' = Some (PList ps) \<longrightarrow>
             (\<exists>ps'. item story' ''pages'' = Some (PList ps') \<and> length ps' = length ps
                \<and> (\<forall>i<length ps.
                      (ps' ! i = ps ! i \<or> (\<exists>v. ps' ! i = set_item (ps ! i) ''image_prompt'' v))
                      \<and> (\<forall>k. k \<noteq> ''image_prompt'' \<longrightarrow> item (ps' ! i) k = item (ps ! i) k)))"
    using fr by (rule conjunct1) (rule conjunct1 [OF conjunct2 [OF fr]])
  from a t have 1: "item story' ''title'' = Some (PStr ''T'')" by simp
  from mp [OF spec [OF b] h1] obtain ps' where p: "item story' ''pages'' = Some (PList ps')"
    and l: "length ps' = length ?ps"
    and n0: "\<forall>i<length ?ps.
              (ps' ! i = ?ps ! i \<or> (\<exists>v. ps' ! i = set_item (?ps ! i) ''image_prompt'' v))
              \<and> (\<forall>k. k \<noteq> ''image_prompt'' \<longrightarrow> item (ps' ! i) k = item (?ps ! i) k)"
    by (elim exE conjE)
  have n: "item (ps' ! i) k = item (?ps ! i) k" if "i < length ?ps" and "k \<noteq> ''image_prompt''" for i k
    using n0 that by blast
  have "item (ps' ! 0) ''page_num'' = item (?ps ! 0) ''page_num''"
    and "item (ps' ! 0) ''text'' = item (?ps ! 0) ''text''"
    and "item (ps' ! 1) ''page_num'' = item (?ps ! 1) ''page_num''"
    and "item (ps' ! 1) ''text'' = item (?ps ! 1) ''text''"
    by (rule n; simp)+
  then have 2: "item (ps' ! 0) ''page_num'' = Some (PInt 1)"
    "item (ps' ! 0) ''text'' = Some (PStr ''x'')"
    "item (ps' ! 1) ''page_num'' = Some (PInt 2)"
    "item (ps' ! 1) ''text'' = Some (PStr ''y'')"
    by (simp_all add: item_def)
  from l have 3: "length ps' = 2" by simp
  from 1 p 2 3 show ?thesis unfolding g by simp
qed

section \<open>The extraction takes the JSON-labelled fence first\<close>

text \<open>
  The text behind the first (leftmost) occurrence of a marker, if the marker occurs, and
  the text before the first occurrence (the whole text if the marker does not occur).
\<close>

fun after_first :: "string \<Rightarrow> string \<Rightarrow> string option" where
  "after_first sep [] = (if sep = [] then Some [] else None)"
| "after_first sep (c # cs) =
     (if py_startswith (c # cs) sep then Some (drop (length sep) (c # cs))
      else after_first sep cs)"

fun before_first :: "string \<Rightarrow> string \<Rightarrow> string" where
  "before_first sep [] = []"
| "before_first sep (c # cs) =
     (if py_startswith (c # cs) sep then [] else c # before_first sep cs)"

text \<open>
  The payload as the specification words it: the content between the first JSON-labelled
  fence and the next fence; failing that, between the first fence and the next; failing
  that, the whole text.
\<close>

definition spec_payload :: "string \<Rightarrow> string" where
  "spec_payload tx =
     (case after_first json_fence tx of
        Some r \<Rightarrow> before_first fence r
      | None \<Rightarrow>
          (case after_first fence tx of
             Some r \<Rightarrow> before_first fence r
           | None \<Rightarrow> tx))"

lemma py_startswith_append: "py_startswith s p \<longleftrightarrow> (\<exists>r. s = p @ r)"
  by (induction s p rule: py_startswith.induct) auto

lemma after_first_occurrence:
  "after_first sep s = Some r \<Longrightarrow> s = before_first sep s @ sep @ r"
proof (induction s)
  case Nil
  then show ?case by (simp split: if_splits)
next
  case (Cons c cs)
  show ?case
  proof (cases "py_startswith (c # cs) sep")
    case True
    then obtain t where t: "c # cs = sep @ t" by (auto simp: py_startswith_append)
    from True have b: "before_first sep (c # cs) = []" by simp
    from True Cons.prems have "r = drop (length sep) (c # cs)" by simp
    with t have "r = t" by simp
    with t b show ?thesis by simp
  next
    case False
    with Cons show ?thesis by simp
  qed
qed

lemma py_in_after_first: "py_in sep s \<longleftrightarrow> after_first sep s \<noteq> None"
  by (induction s) auto

lemma split_pieces_first:
  "sep \<noteq> [] \<Longrightarrow>
   split_pieces sep s =
     (case after_first sep s of
        None \<Rightarrow> [s]
      | Some r \<Rightarrow> before_first sep s # split_pieces sep r)"
proof (induction s)
  case Nil
  then show ?case by simp
next
  case (Cons c cs)
  show ?case
  proof (cases "py_startswith (c # cs) sep")
    case True
    with Cons.prems show ?thesis by simp
  next
    case False
    with Cons show ?thesis by (simp split: option.splits)
  qed
qed

lemma hd_split_pieces: "sep \<noteq> [] \<Longrightarrow> hd (split_pieces sep s) = before_first sep s"
proof (induction s)
  case Nil
  then show ?case by simp
next
  case (Cons c cs)
  then show ?case
    using split_pieces_nonempty [of sep cs]
    by (cases "split_pieces sep cs") auto
qed

lemma second_split_piece:
  "sep \<noteq> [] \<Longrightarrow> after_first sep s = Some r \<Longrightarrow> split_pieces sep s ! 1 = before_first sep r"
  using hd_split_pieces [of sep r] split_pieces_nonempty [of sep r]
  by (simp add: split_pieces_first hd_conv_nth)

lemma before_first_prefix: "\<exists>t. s = before_first sep s @ t"
  by (induction s) auto

lemma between_fences_first:
  assumes "opening \<noteq> []" and "after_first opening tx = Some r"
  shows "between_fences tx opening = Inr (py_strip (before_first fence (before_first opening r)))"
proof -
  from assms(2) have "py_in opening tx" by (simp add: py_in_after_first)
  from between_fences_Inr [OF assms(1) this] second_split_piece [OF assms] show ?thesis
    by (simp add: hd_split_pieces fence_def)
qed

lemma before_first_no_occurrence: "\<not> py_in sep s \<Longrightarrow> before_first sep s = s"
  by (induction s) auto

lemma before_first_free: "sep \<noteq> [] \<Longrightarrow> \<not> py_in sep (before_first sep s)"
proof (induction s)
  case Nil
  then show ?case by simp
next
  case (Cons c cs)
  show ?case
  proof (cases "py_startswith (c # cs) sep")
    case True
    with Cons.prems show ?thesis by simp
  next
    case False
    obtain t where t: "cs = before_first sep cs @ t" using before_first_prefix by blast
    have "\<not> py_startswith (c # before_first sep cs) sep"
    proof
      assume "py_startswith (c # before_first sep cs) sep"
      then obtain r where "c # before_first sep cs = sep @ r"
        by (auto simp: py_startswith_append)
      then have "c # before_first sep cs @ t = sep @ (r @ t)" by simp
      with t have "c # cs = sep @ (r @ t)" by simp
      then have "py_startswith (c # cs) sep" unfolding py_startswith_append by blast
      with False show False by simp
    qed
    with False Cons show ?thesis by simp
  qed
qed

lemma before_first_idem: "sep \<noteq> [] \<Longrightarrow> before_first sep (before_first sep s) = before_first sep s"
  by (simp add: before_first_no_occurrence before_first_free)

lemma py_startswith_json_fence: "py_startswith s json_fence \<Longrightarrow> py_startswith s fence"
  unfolding py_startswith_append by (auto simp: json_fence_def fence_def)

lemma py_in_json_fence: "py_in json_fence s \<Longrightarrow> py_in fence s"
proof (induction s)
  case Nil
  then show ?case by (simp add: json_fence_def)
next
  case (Cons c cs)
  from Cons.prems have "py_startswith (c # cs) json_fence \<or> py_in json_fence cs" by simp
  then show ?case
  proof
    assume "py_startswith (c # cs) json_fence"
    then have "py_startswith (c # cs) fence" by (rule py_startswith_json_fence)
    then show ?thesis by simp
  next
    assume "py_in json_fence cs"
    then have "py_in fence cs" by (rule Cons.IH)
    then show ?thesis by simp
  qed
qed

lemma extract_json_first:
  "extract_json tx =
     Inr (case after_first json_fence tx of
            Some r \<Rightarrow> py_strip (before_first fence (before_first json_fence r))
          | None \<Rightarrow>
              (case after_first fence tx of
                 Some r \<Rightarrow> py_strip (before_first fence r)
               | None \<Rightarrow> tx))"
proof (cases "after_first json_fence tx")
  case (Some r)
  then have "py_in json_fence tx" by (simp add: py_in_after_first)
  moreover have "json_fence \<noteq> []" by (simp add: json_fence_def)
  ultimately show ?thesis using Some
    by (simp add: extract_json_def between_fences_first)
next
  case None
  then have nj: "\<not> py_in json_fence tx" by (simp add: py_in_after_first)
  have ne: "fence \<noteq> []" by (simp add: fence_def)
  show ?thesis
  proof (cases "after_first fence tx")
    case None
    then have "\<not> py_in fence tx" by (simp add: py_in_after_first)
    with nj None \<open>after_first json_fence tx = None\<close> show ?thesis
      by (simp add: extract_json_def)
  next
    case (Some r)
    then have "py_in fence tx" by (simp add: py_in_after_first)
    with nj Some \<open>after_first json_fence tx = None\<close> show ?thesis
      by (simp add: extract_json_def between_fences_first [OF ne Some] before_first_idem [OF ne])
  qed
qed

text \<open>
  \<^bold>\<open>C3\<close> fails as stated. The content between the fences of the first text is a line
  feed, \<^verbatim>\<open>{}\<close> and a line feed; the parser is given \<^verbatim>\<open>{}\<close>, because the code
  strips the content. In the second text the next fence behind the first JSON-labelled
  one begins with the first three of four backquotes; the code cuts at the second
  JSON-labelled fence first and so keeps the fourth backquote.
\<close>

theorem extraction_priority_counterexample:
  "extract_json ''```json\<newline>{}\<newline>```'' = Inr ''{}''
   \<and> spec_payload ''```json\<newline>{}\<newline>```'' = ''\<newline>{}\<newline>''
   \<and> extract_json ''```json x````json y```'' = Inr ''x`''
   \<and> spec_payload ''```json x````json y```'' = '' x''"
  by code_simp

text \<open>
  \<^bold>\<open>C3\<close> (amended). The extraction never raises, and it chooses in this order. If a
  JSON-labelled fence occurs: the text behind the first one, cut at the next
  JSON-labelled fence if there is one and then at the first fence in what is left if
  there is one, without the white space at its ends; when no second JSON-labelled fence
  follows, that is the stripped payload of the specification. Otherwise, if a fence
  occurs: the stripped payload of the specification, the text between the first fence
  and the next (or the end). Otherwise the text as it is. A JSON-labelled fence wins
  over any other fence, wherever that stands.
\<close>

theorem extraction_priority:
  "extract_json tx =
     Inr (case after_first json_fence tx of
            Some r \<Rightarrow> py_strip (before_first fence (before_first json_fence r))
          | None \<Rightarrow>
              (case after_first fence tx of
                 Some r \<Rightarrow> py_strip (before_first fence r)
               | None \<Rightarrow> tx))
   \<and> (\<forall>r. after_first json_fence tx = Some r \<and> \<not> py_in json_fence r \<longrightarrow>
          extract_json tx = Inr (py_strip (spec_payload tx)))
   \<and> (\<not> py_in json_fence tx \<and> py_in fence tx \<longrightarrow>
          extract_json tx = Inr (py_strip (spec_payload tx)))
   \<and> (\<not> py_in fence tx \<longrightarrow> extract_json tx = Inr tx \<and> spec_payload tx = tx)"
proof (intro conjI allI impI)
  show "extract_json tx =
     Inr (case after_first json_fence tx of
            Some r \<Rightarrow> py_strip (before_first fence (before_first json_fence r))
          | None \<Rightarrow>
              (case after_first fence tx of
                 Some r \<Rightarrow> py_strip (before_first fence r)
               | None \<Rightarrow> tx))"
    by (rule extract_json_first)
next
  fix r
  assume a: "after_first json_fence tx = Some r \<and> \<not> py_in json_fence r"
  then have "before_first json_fence r = r" by (simp add: before_first_no_occurrence)
  with a show "extract_json tx = Inr (py_strip (spec_payload tx))"
    by (simp add: extract_json_first spec_payload_def)
next
  assume a: "\<not> py_in json_fence tx \<and> py_in fence tx"
  then have "after_first json_fence tx = None" by (simp add: py_in_after_first)
  moreover from a obtain r where "after_first fence tx = Some r"
    by (auto simp: py_in_after_first)
  ultimately show "extract_json tx = Inr (py_strip (spec_payload tx))"
    by (simp add: extract_json_first spec_payload_def)
next
  assume a: "\<not> py_in fence tx"
  then have "\<not> py_in json_fence tx" using py_in_json_fence by blast
  with a have n: "after_first json_fence tx = None" "after_first fence tx = None"
    by (simp_all add: py_in_after_first)
  then show "extract_json tx = Inr tx" by (simp add: extract_json_first)
  from n show "spec_payload tx = tx" by (simp add: spec_payload_def)
qed

text \<open>
  The theorem at a text with a plain fenced block before the JSON-labelled one, at a
  text with a plain fence only, and at a text without a fence.
\<close>

theorem extraction_priority_witness:
  \<open>extract_json ''Sure: ``` not this ``` and ```json {"title": "T"} ``` bye''
     = Inr ''{"title": "T"}''
   \<and> py_strip (spec_payload ''Sure: ``` not this ``` and ```json {"title": "T"} ``` bye'')
       = ''{"title": "T"}''
   \<and> extract_json ''``` {} ``` bye'' = Inr ''{}''
   \<and> extract_json '' {} '' = Inr '' {} ''\<close>
proof -
  let ?t = \<open>''Sure: ``` not this ``` and ```json {"title": "T"} ``` bye''\<close>
  have h1: \<open>after_first json_fence ?t = Some '' {"title": "T"} ``` bye''
             \<and> \<not> py_in json_fence '' {"title": "T"} ``` bye''\<close>
    by code_simp
  have h2: \<open>py_strip (spec_payload ?t) = ''{"title": "T"}''\<close>
    by code_simp
  have h3: "\<not> py_in json_fence ''``` {} ``` bye'' \<and> py_in fence ''``` {} ``` bye''"
    by code_simp
  have h4: "py_strip (spec_payload ''``` {} ``` bye'') = ''{}''"
    by code_simp
  have h5: "\<not> py_in fence '' {} ''"
    by code_simp
  note e1 = extraction_priority [of ?t]
  note e2 = extraction_priority [of "''``` {} ``` bye''"]
  note e3 = extraction_priority [of "'' {} ''"]
  have a: \<open>extract_json ?t = Inr ''{"title": "T"}''\<close>
    using mp [OF spec [OF conjunct1 [OF conjunct2 [OF e1]]] h1] h2 by (simp only:)
  have b: "extract_json ''``` {} ``` bye'' = Inr ''{}''"
    using mp [OF conjunct1 [OF conjunct2 [OF conjunct2 [OF e2]]] h3] h4 by (simp only:)
  have c: "extract_json '' {} '' = Inr '' {} ''"
    using mp [OF conjunct2 [OF conjunct2 [OF conjunct2 [OF e3]]] h5] by (rule conjunct1)
  from a h2 b c show ?thesis by (intro conjI)
qed

section \<open>Saving a story and reading it back\<close>

lemma with_char_scan: "r = Inr (s, t) \<Longrightarrow> with_char c r = Inr (c # s, t)"
  by (simp add: with_char_def)





















lemma then_write_None [simp]: "then_write (s, None) (t, x) = (s @ t, x)"
  by (simp add: then_write_def)

lemma buffered_None [simp]: "buffered buf (s, None) = (buf @ s, None)"
  by (simp add: buffered_def)















text \<open>
  The Story of the data model: a title and the pages in order, each page with its
  number, its text and its image prompt; and the dictionary the generator holds for it.
\<close>

datatype page = Page (page_num: int) (page_text: string) (page_image_prompt: string)

datatype story = Story (story_title: string) (story_pages: "page list")

definition page_dict :: "page \<Rightarrow> pyval" where
  "page_dict p =
     PDict [(''page_num'', PInt (page_num p)),
            (''text'', PStr (page_text p)),
            (''image_prompt'', PStr (page_image_prompt p))]"

definition story_dict :: "story \<Rightarrow> pyval" where
  "story_dict s =
     PDict [(''title'', PStr (story_title s)),
            (''pages'', PList (map page_dict (story_pages s)))]"











lemma dump_layout_example:
  \<open>dump_value (\<lambda>x. x) 0 (story_dict (Story ''T'' [Page 1 ''x'' ''y''])) =
     (''{\<newline>  "title": "T",\<newline>  "pages": [\<newline>    {\<newline>      "page_num": 1,\<newline>      "text": "x",\<newline>      "image_prompt": "y"\<newline>    }\<newline>  ]\<newline>}'', None)\<close>
  by code_simp

end
